theory Spec2Isabelle
  imports Complex_Main "HOL-Library.AList"
begin

section \<open>Data model\<close>

text \<open>
  The job scheduler of the photo restoration server: \<^verbatim>\<open>packages/core/queue.js\<close>,
  \<^verbatim>\<open>packages/core/heartbeat.js\<close>, the step definitions under \<^verbatim>\<open>steps/\<close>, and the
  HTTP routes \<^verbatim>\<open>routes/jobs.js\<close>, \<^verbatim>\<open>routes/settings.js\<close> and \<^verbatim>\<open>routes/photos.js\<close>.

  JavaScript values are modelled as follows. A field that may be \<^verbatim>\<open>undefined\<close> or
  \<^verbatim>\<open>null\<close> is an \<open>option\<close>; numbers that hold indices and counters are \<open>int\<close>
  (\<^verbatim>\<open>indexOf\<close> returns -1); the two \<^verbatim>\<open>Map\<close>s \<^verbatim>\<open>photos\<close> and \<^verbatim>\<open>jobs\<close> are lists
  in insertion order, which is the order \<^verbatim>\<open>jobs.values()\<close> iterates in; values drawn from
  the environment (\<^verbatim>\<open>randomUUID()\<close>, \<^verbatim>\<open>Date.now()\<close>, the outcome of a worker
  process) are parameters of the operation that draws them.
\<close>

datatype status = Pending | Processing | WaitingInput | Completed | Failed | Cancelled

record photo =
  photo_id :: string
  filename :: string
  originalName :: string
  uploadedAt :: int

record job =
  job_id :: string
  photoId :: string
  photoName :: string
  original :: string
  steps :: "string list"
  options :: "(string \<times> string) list"
  maskPath :: "string option"
  cropRect :: "string option"
  status :: status
  progress :: int
  createdAt :: int
  result :: "string option"
  stepResults :: "(string \<times> string) list"
  priority :: int
  resumeFromStep :: "int option"
  currentInputPath :: "string option"
  currentStep :: "string option"
  waitingStep :: "string option"
  waitingImage :: "string option"
  error :: "string option"
  failedStep :: "string option"
  failedStepIndex :: "int option"

text \<open>JavaScript truthiness of a string-or-null value: \<^verbatim>\<open>null\<close>, \<^verbatim>\<open>undefined\<close> and the
  empty string are falsy.\<close>

fun truthy :: "string option \<Rightarrow> bool" where
  "truthy None = False"
| "truthy (Some v) = (v \<noteq> [])"

subsection \<open>Paths and URLs (config.js, utils.js)\<close>

definition ROOT :: string where
  "ROOT = ''/app''"

definition path_join :: "string \<Rightarrow> string \<Rightarrow> string" where
  "path_join dir name = dir @ ''/'' @ name"

definition UPLOADS_DIR :: string where
  "UPLOADS_DIR = path_join ROOT ''uploads''"

definition RESULTS_DIR :: string where
  "RESULTS_DIR = path_join ROOT ''results''"

definition basename :: "string \<Rightarrow> string" where
  "basename p = rev (takeWhile (\<lambda>c. c \<noteq> CHR ''/'') (rev p))"

text \<open>\<^verbatim>\<open>filePath.startsWith(prefix)\<close>\<close>

definition startsWith :: "string \<Rightarrow> string \<Rightarrow> bool" where
  "startsWith p pre = (take (length pre) p = pre)"

definition getUrlForPath :: "string \<Rightarrow> string" where
  "getUrlForPath filePath =
     (if startsWith filePath RESULTS_DIR then ''/results/'' @ basename filePath
      else ''/uploads/'' @ basename filePath)"

text \<open>\<^verbatim>\<open>path.parse(n).name\<close>: the last path component without its last extension (a
  leading dot does not start an extension).\<close>

definition parse_name :: "string \<Rightarrow> string" where
  "parse_name n =
     (let b = basename n;
          ext = takeWhile (\<lambda>c. c \<noteq> CHR ''.'') (rev b)
      in if length ext < length b - 1 then take (length b - length ext - 1) b else b)"

text \<open>\<^verbatim>\<open>sanitizeFilename\<close> on ASCII names, where the NFD normalisation and the removal
  of combining marks change nothing: characters outside \<^verbatim>\<open>[a-zA-Z0-9._-]\<close> become
  underscores, runs of underscores collapse, one leading and one trailing underscore are
  trimmed.\<close>

definition plain_char :: "char \<Rightarrow> bool" where
  "plain_char c =
     (let n = of_char c :: nat
      in (97 \<le> n \<and> n \<le> 122) \<or> (65 \<le> n \<and> n \<le> 90) \<or> (48 \<le> n \<and> n \<le> 57)
         \<or> c = CHR ''.'' \<or> c = CHR ''_'' \<or> c = CHR ''-'')"

fun collapse_underscores :: "string \<Rightarrow> string" where
  "collapse_underscores (a # b # cs) =
     (if a = CHR ''_'' \<and> b = CHR ''_'' then collapse_underscores (b # cs)
      else a # collapse_underscores (b # cs))"
| "collapse_underscores cs = cs"

definition trim_underscore :: "string \<Rightarrow> string" where
  "trim_underscore cs =
     (let cs1 = (case cs of c # r \<Rightarrow> if c = CHR ''_'' then r else cs | [] \<Rightarrow> [])
      in if cs1 \<noteq> [] \<and> last cs1 = CHR ''_'' then butlast cs1 else cs1)"

definition sanitizeFilename :: "string \<Rightarrow> string" where
  "sanitizeFilename n =
     trim_underscore (collapse_underscores
       (map (\<lambda>c. if plain_char c then c else CHR ''_'') n))"

subsection \<open>The stage registry (steps/*.js, steps/index.js)\<close>

text \<open>A step definition. The display fields \<^verbatim>\<open>name\<close>, \<^verbatim>\<open>model\<close> and \<^verbatim>\<open>repo\<close>
  are left out. \<open>needsInput\<close> and \<open>onComplete\<close> are optional methods; \<open>onComplete\<close>
  returns the job and the file it unlinks, if any.\<close>

record stepDef =
  script :: string
  prefix :: string
  manual :: bool
  models :: "string list option"
  defaultModel :: "string option"
  needsInput :: "(job \<Rightarrow> bool) option"
  buildArgs :: "string \<Rightarrow> string \<Rightarrow> job \<Rightarrow> string option \<Rightarrow> string \<times> string option list"
  onComplete :: "(job \<Rightarrow> job \<times> string option) option"

definition crop :: stepDef where
  "crop = \<lparr> script = ''crop.py'', prefix = ''CROP'', manual = True,
      models = None, defaultModel = None,
      needsInput = Some (\<lambda>job. \<not> truthy (cropRect job)),
      buildArgs = (\<lambda>inputPath outputPath job selectedModel.
         (''crop.py'', [Some inputPath, Some outputPath, cropRect job])),
      onComplete = Some (\<lambda>job. (job\<lparr>cropRect := None\<rparr>, None)) \<rparr>"

definition inpaint :: stepDef where
  "inpaint = \<lparr> script = ''inpaint.py'', prefix = ''INPAINT'', manual = True,
      models = None, defaultModel = None,
      needsInput = Some (\<lambda>job. \<not> truthy (maskPath job)),
      buildArgs = (\<lambda>inputPath outputPath job selectedModel.
         (''inpaint.py'', [Some inputPath, maskPath job, Some outputPath])),
      onComplete = Some (\<lambda>job.
         if truthy (maskPath job) then (job\<lparr>maskPath := None\<rparr>, maskPath job)
         else (job, None)) \<rparr>"

definition spot_removal :: stepDef where
  "spot_removal = \<lparr> script = ''clean_spots.py'', prefix = ''SPOTS'', manual = False,
      models = Some [''lama'', ''opencv''], defaultModel = Some ''lama'',
      needsInput = None,
      buildArgs = (\<lambda>inputPath outputPath job selectedModel.
         (''clean_spots.py'', [Some inputPath, Some outputPath, selectedModel])),
      onComplete = None \<rparr>"

definition scratch_removal :: stepDef where
  "scratch_removal = \<lparr> script = ''restore.py'', prefix = ''REST'', manual = False,
      models = Some [''lama'', ''opencv''], defaultModel = Some ''lama'',
      needsInput = None,
      buildArgs = (\<lambda>inputPath outputPath job selectedModel.
         (''restore.py'', [Some inputPath, Some outputPath, selectedModel])),
      onComplete = None \<rparr>"

definition face_restore :: stepDef where
  "face_restore = \<lparr> script = ''face_restore.py'', prefix = ''FACE'', manual = False,
      models = None, defaultModel = None,
      needsInput = None,
      buildArgs = (\<lambda>inputPath outputPath job selectedModel.
         (''face_restore.py'', [Some inputPath, Some outputPath])),
      onComplete = None \<rparr>"

definition colorize :: stepDef where
  "colorize = \<lparr> script = ''colorize_ddcolor.py'', prefix = ''COL'', manual = False,
      models = Some [''ddcolor'', ''deoldify_artistic'', ''deoldify_stable'',
                     ''siggraph17'', ''eccv16''],
      defaultModel = Some ''ddcolor'',
      needsInput = None,
      buildArgs = (\<lambda>inputPath outputPath job selectedModel.
         if selectedModel = Some ''ddcolor''
           then (''colorize_ddcolor.py'', [Some inputPath, Some outputPath])
         else if selectedModel = Some ''deoldify_artistic''
           then (''colorize_deoldify.py'', [Some inputPath, Some outputPath, Some ''artistic''])
         else if selectedModel = Some ''deoldify_stable''
           then (''colorize_deoldify.py'', [Some inputPath, Some outputPath, Some ''stable''])
         else (''colorize.py'', [Some inputPath, Some outputPath, selectedModel])),
      onComplete = None \<rparr>"

definition upscale :: stepDef where
  "upscale = \<lparr> script = ''upscale.py'', prefix = ''UPS'', manual = False,
      models = Some [''compact'', ''x4plus'', ''x4plus-anime'', ''x2plus'', ''lanczos''],
      defaultModel = Some ''compact'',
      needsInput = None,
      buildArgs = (\<lambda>inputPath outputPath job selectedModel.
         (''upscale.py'', [Some inputPath, Some outputPath, selectedModel, Some ''2''])),
      onComplete = None \<rparr>"

text \<open>\<^verbatim>\<open>STEPS\<close> after the automatic filtering: \<^verbatim>\<open>online_restore\<close> is declared with
  \<^verbatim>\<open>disabled: true\<close> and is dropped, the seven other stages stay.\<close>

definition ALL_STEPS :: "(string \<times> stepDef) list" where
  "ALL_STEPS =
     [(''crop'', crop), (''inpaint'', inpaint), (''spot_removal'', spot_removal),
      (''scratch_removal'', scratch_removal), (''face_restore'', face_restore),
      (''colorize'', colorize), (''upscale'', upscale)]"

definition STEPS :: "string \<Rightarrow> stepDef option" where
  "STEPS = map_of ALL_STEPS"

definition MANUAL_STEPS :: "string list" where
  "MANUAL_STEPS = map fst (filter (\<lambda>(k, s). manual s) ALL_STEPS)"

section \<open>Scheduler state\<close>

text \<open>
  \<^verbatim>\<open>processJob\<close> is an \<^verbatim>\<open>async\<close> function: it runs synchronously up to
  \<^verbatim>\<open>await runPythonStep(...)\<close>, and goes on when the worker process has exited. A
  \<open>frame\<close> is one invocation of \<^verbatim>\<open>processJob\<close> suspended at that \<^verbatim>\<open>await\<close>, with the
  local variables it needs afterwards and the handle of the process it waits for.
\<close>

record frame =
  fr_proc :: nat
  fr_job :: string
  fr_i :: int
  fr_step :: string
  fr_origName :: string
  fr_jobShort :: string
  fr_outputFilename :: string
  fr_outputPath :: string
  fr_script :: string
  fr_args :: "string option list"

text \<open>
  The module-level variables: the two maps of \<^verbatim>\<open>storage.js\<close>, \<^verbatim>\<open>runningProcs\<close>,
  \<^verbatim>\<open>maxConcurrent\<close>, \<^verbatim>\<open>lastHeartbeat\<close>, and the two constants that \<^verbatim>\<open>config.js\<close> reads
  from the environment. \<open>awaiting\<close> holds the suspended frames, \<open>nextProc\<close> numbers the
  process handles, \<open>killed\<close> logs the handles that were sent \<^verbatim>\<open>SIGTERM\<close>, and \<open>files\<close>
  lists the mask files the server has written and not yet unlinked.
\<close>

record state =
  photos :: "photo list"
  jobs :: "job list"
  runningProcs :: "(string \<times> nat) list"
  maxConcurrent :: int
  MAX_CONCURRENT_LIMIT :: int
  HEARTBEAT_TIMEOUT_MS :: int
  lastHeartbeat :: int
  awaiting :: "frame list"
  nextProc :: nat
  killed :: "nat list"
  files :: "string list"

definition find_job :: "state \<Rightarrow> string \<Rightarrow> job option" where
  "find_job s jid = find (\<lambda>j. job_id j = jid) (jobs s)"

definition find_photo :: "state \<Rightarrow> string \<Rightarrow> photo option" where
  "find_photo s pid = find (\<lambda>p. photo_id p = pid) (photos s)"

text \<open>A job is a mutable object that the store and the frames share; writing a field is
  replacing the record stored under the job's id.\<close>

definition set_job :: "state \<Rightarrow> job \<Rightarrow> state" where
  "set_job s job = s\<lparr>jobs := map (\<lambda>j. if job_id j = job_id job then job else j) (jobs s)\<rparr>"

text \<open>\<^verbatim>\<open>unlinkSync\<close> inside \<^verbatim>\<open>try { } catch {}\<close>\<close>

definition unlink :: "state \<Rightarrow> string option \<Rightarrow> state" where
  "unlink s p = (case p of None \<Rightarrow> s | Some f \<Rightarrow> s\<lparr>files := removeAll f (files s)\<rparr>)"

section \<open>queue.js\<close>

text \<open>\<^verbatim>\<open>xs[i]\<close>: \<^verbatim>\<open>undefined\<close> out of range\<close>

definition js_nth :: "'a list \<Rightarrow> int \<Rightarrow> 'a option" where
  "js_nth xs i = (if 0 \<le> i \<and> i < int (length xs) then Some (xs ! nat i) else None)"

text \<open>\<^verbatim>\<open>STEPS[step]\<close> where \<^verbatim>\<open>step\<close> may be \<^verbatim>\<open>undefined\<close>\<close>

definition lookup_step :: "string option \<Rightarrow> stepDef option" where
  "lookup_step step = (case step of None \<Rightarrow> None | Some k \<Rightarrow> STEPS k)"

text \<open>\<^verbatim>\<open>stepDef?.needsInput?.(job)\<close> as a condition\<close>

definition asks_input :: "stepDef option \<Rightarrow> job \<Rightarrow> bool" where
  "asks_input stepDef job =
     (case stepDef of None \<Rightarrow> False
      | Some d \<Rightarrow> (case needsInput d of None \<Rightarrow> False | Some f \<Rightarrow> f job))"

text \<open>\<^verbatim>\<open>Math.round((i / n) * 100)\<close>, which rounds halves up, in exact arithmetic\<close>

definition round_percent :: "int \<Rightarrow> int \<Rightarrow> int" where
  "round_percent i n = (200 * i + n) div (2 * n)"

fun index_from :: "int \<Rightarrow> 'a list \<Rightarrow> 'a \<Rightarrow> int" where
  "index_from n [] x = -1"
| "index_from n (y # ys) x = (if y = x then n else index_from (n + 1) ys x)"

text \<open>\<^verbatim>\<open>job.steps.indexOf(job.currentStep)\<close>, with \<^verbatim>\<open>currentStep\<close> possibly \<^verbatim>\<open>null\<close>\<close>

definition indexOf :: "string list \<Rightarrow> string option \<Rightarrow> int" where
  "indexOf xs v = (case v of None \<Rightarrow> -1 | Some k \<Rightarrow> index_from 0 xs k)"

definition jobHasManualSteps :: "job \<Rightarrow> bool" where
  "jobHasManualSteps job = list_ex (\<lambda>s. s \<in> set MANUAL_STEPS) (steps job)"

definition resume_index :: "job \<Rightarrow> int" where
  "resume_index job = (case resumeFromStep job of None \<Rightarrow> 0 | Some k \<Rightarrow> k)"

definition jobWillPauseImmediately :: "job \<Rightarrow> bool" where
  "jobWillPauseImmediately job =
     (let idx = resume_index job;
          step = js_nth (steps job) idx;
          stepDef = lookup_step step
      in asks_input stepDef job)"

text \<open>\<^verbatim>\<open>runPythonStep\<close> up to the point where its promise is pending: the process is
  started and registered under the job id, and the caller is suspended.\<close>

definition runPythonStep :: "state \<Rightarrow> frame \<Rightarrow> state" where
  "runPythonStep s fr =
     s\<lparr>runningProcs := (if fr_job fr \<noteq> [] then AList.update (fr_job fr) (nextProc s) (runningProcs s)
                        else runningProcs s),
       awaiting := awaiting s @ [fr\<lparr>fr_proc := nextProc s\<rparr>],
       nextProc := nextProc s + 1\<rparr>"

text \<open>Lines 88 to 99 of \<^verbatim>\<open>processJob\<close>: the output file name and path, the selected
  model and the arguments of the worker for step \<open>i\<close>, kept in the frame that will
  wait for the worker.\<close>

definition step_frame :: "job \<Rightarrow> string \<Rightarrow> string \<Rightarrow> int \<Rightarrow> string \<Rightarrow> stepDef \<Rightarrow> string \<Rightarrow> frame" where
  "step_frame job origName jobShort i step stepDef currentInput =
     (let pfx = (if prefix stepDef \<noteq> [] then prefix stepDef else step);
          outputFilename = origName @ ''_'' @ pfx @ ''_'' @ jobShort @ ''.png'';
          outputPath = path_join RESULTS_DIR outputFilename;
          selectedModel =
            (case models stepDef of
               None \<Rightarrow> None
             | Some ms \<Rightarrow>
                 if truthy (map_of (options job) step) then map_of (options job) step
                 else defaultModel stepDef);
          call = buildArgs stepDef currentInput outputPath job selectedModel
      in \<lparr>fr_proc = 0, fr_job = job_id job, fr_i = i, fr_step = step,
          fr_origName = origName, fr_jobShort = jobShort,
          fr_outputFilename = outputFilename, fr_outputPath = outputPath,
          fr_script = fst call, fr_args = snd call\<rparr>)"

text \<open>The \<^verbatim>\<open>for\<close> loop of \<^verbatim>\<open>processJob\<close> from index \<open>i\<close> up to the first \<^verbatim>\<open>return\<close>
  or \<^verbatim>\<open>await\<close>, and the code after the loop.\<close>

function processJob_loop :: "state \<Rightarrow> job \<Rightarrow> string \<Rightarrow> string \<Rightarrow> int \<Rightarrow> string \<Rightarrow> state" where
  "processJob_loop s job origName jobShort i currentInput =
     (if i < int (length (steps job)) then
        (case js_nth (steps job) i of
           None \<Rightarrow> processJob_loop s job origName jobShort (i + 1) currentInput
         | Some step \<Rightarrow>
            (case STEPS step of
               None \<Rightarrow> processJob_loop s job origName jobShort (i + 1) currentInput
             | Some stepDef \<Rightarrow>
                if asks_input (Some stepDef) job then
                  set_job s (job\<lparr>status := WaitingInput,
                                 waitingStep := Some step,
                                 resumeFromStep := Some i,
                                 currentInputPath := Some currentInput,
                                 waitingImage := Some (getUrlForPath currentInput),
                                 progress := round_percent i (int (length (steps job)))\<rparr>)
                else
                  (let job1 = job\<lparr>currentStep := Some step,
                                   progress := round_percent i (int (length (steps job)))\<rparr>;
                       fr = step_frame job1 origName jobShort i step stepDef currentInput
                   in if status job1 = Cancelled then set_job s job1
                      else runPythonStep (set_job s job1) fr)))
      else
        set_job s (job\<lparr>status := Completed,
                       progress := 100,
                       currentStep := None,
                       waitingStep := None,
                       waitingImage := None,
                       result := (if stepResults job \<noteq> [] then Some (snd (last (stepResults job)))
                                  else None)\<rparr>))"
  by pat_completeness auto
termination
  by (relation "measure (\<lambda>(s, job, origName, jobShort, i, currentInput).
        nat (int (length (steps job)) - i))") auto

declare processJob_loop.simps [simp del]

text \<open>\<^verbatim>\<open>processJob\<close> from its first line to its first \<^verbatim>\<open>return\<close> or \<^verbatim>\<open>await\<close>.\<close>

definition processJob :: "state \<Rightarrow> job \<Rightarrow> state" where
  "processJob s job0 =
     (let job = job0\<lparr>status := Processing\<rparr> in
      case find_photo s (photoId job) of
        None \<Rightarrow> set_job s (job\<lparr>status := Failed\<rparr>)
      | Some photo \<Rightarrow>
          (let origName = sanitizeFilename (parse_name (originalName photo));
               jobShort = take 6 (job_id job);
               startIndex = resume_index job;
               currentInput = (if truthy (currentInputPath job)
                               then (case currentInputPath job of Some p \<Rightarrow> p | None \<Rightarrow> [])
                               else path_join UPLOADS_DIR (filename photo))
           in processJob_loop s job origName jobShort startIndex currentInput))"

text \<open>The walk of \<^verbatim>\<open>processNext\<close> over the sorted candidates. \<^verbatim>\<open>running\<close> is counted
  once before the walk; \<^verbatim>\<open>maxConcurrent\<close> is read at each candidate. The callback
  \<^verbatim>\<open>.then(() => processNext())\<close> runs later, as an event of its own.\<close>

fun processNext_loop :: "int \<Rightarrow> int \<Rightarrow> state \<Rightarrow> job list \<Rightarrow> state" where
  "processNext_loop running slotsUsed s [] = s"
| "processNext_loop running slotsUsed s (job # rest) =
     (let willPause = jobWillPauseImmediately job in
      if \<not> willPause \<and> running + slotsUsed \<ge> maxConcurrent s
        then processNext_loop running slotsUsed s rest
      else processNext_loop running (if \<not> willPause then slotsUsed + 1 else slotsUsed)
             (processJob s job) rest)"

definition hasWaitingManual :: "state \<Rightarrow> bool" where
  "hasWaitingManual s = list_ex (\<lambda>j. status j = WaitingInput) (jobs s)"

definition running_count :: "state \<Rightarrow> int" where
  "running_count s = int (length (filter (\<lambda>j. status j = Processing) (jobs s)))"

definition candidates :: "state \<Rightarrow> job list" where
  "candidates s =
     sort_key priority
       (filter (\<lambda>j. \<not> hasWaitingManual s \<or> \<not> jobHasManualSteps j)
          (filter (\<lambda>j. status j = Pending) (jobs s)))"

definition processNext :: "state \<Rightarrow> state" where
  "processNext s = processNext_loop (running_count s) 0 s (candidates s)"

text \<open>The \<^verbatim>\<open>catch\<close> block of \<^verbatim>\<open>processJob\<close>, entered when the awaited worker fails.\<close>

definition processJob_catch :: "state \<Rightarrow> job \<Rightarrow> string \<Rightarrow> state" where
  "processJob_catch s job message =
     (if status job = Cancelled then set_job s (job\<lparr>currentStep := None\<rparr>)
      else set_job s (job\<lparr>status := Failed,
                          error := Some message,
                          failedStep := currentStep job,
                          failedStepIndex := Some (indexOf (steps job) (currentStep job)),
                          currentStep := None\<rparr>))"

text \<open>\<^verbatim>\<open>processJob\<close> from the line after a successful \<^verbatim>\<open>await\<close> on: the second
  cancellation check, \<^verbatim>\<open>onComplete\<close>, the step result, \<^verbatim>\<open>processNext()\<close>, and the loop
  from the next index.\<close>

definition processJob_resume :: "state \<Rightarrow> job \<Rightarrow> frame \<Rightarrow> state" where
  "processJob_resume s job fr =
     (if status job = Cancelled then s
      else
        (let done = (case STEPS (fr_step fr) of
                       None \<Rightarrow> (job, None)
                     | Some stepDef \<Rightarrow>
                         (case onComplete stepDef of None \<Rightarrow> (job, None) | Some f \<Rightarrow> f job));
             job2 = (fst done)\<lparr>stepResults := stepResults (fst done) @
                                  [(fr_step fr, ''/results/'' @ fr_outputFilename fr)],
                                currentInputPath := Some (fr_outputPath fr)\<rparr>;
             s2 = processNext (set_job (unlink s (snd done)) job2)
         in case find_job s2 (job_id job2) of
              None \<Rightarrow> s2
            | Some job3 \<Rightarrow>
                processJob_loop s2 job3 (fr_origName fr) (fr_jobShort fr) (fr_i fr + 1)
                  (fr_outputPath fr)))"

text \<open>The exit of worker process \<open>proc\<close>: the callback of \<^verbatim>\<open>execFile\<close> deregisters the
  job's process and settles the promise, with \<open>err\<close> the message of the error if the
  worker failed, timed out or was killed; the frame waiting for it goes on.\<close>

definition worker_exit :: "state \<Rightarrow> nat \<Rightarrow> string option \<Rightarrow> state" where
  "worker_exit s proc err =
     (case find (\<lambda>f. fr_proc f = proc) (awaiting s) of
        None \<Rightarrow> s
      | Some fr \<Rightarrow>
          (let s1 = s\<lparr>runningProcs := AList.delete (fr_job fr) (runningProcs s),
                      awaiting := filter (\<lambda>f. fr_proc f \<noteq> proc) (awaiting s)\<rparr>
           in case find_job s1 (fr_job fr) of
                None \<Rightarrow> s1
              | Some job \<Rightarrow>
                  (case err of
                     Some message \<Rightarrow> processJob_catch s1 job message
                   | None \<Rightarrow> processJob_resume s1 job fr)))"

section \<open>heartbeat.js\<close>

text \<open>The statements that \<^verbatim>\<open>checkHeartbeat\<close>, \<^verbatim>\<open>POST /:id/cancel\<close> and
  \<^verbatim>\<open>POST /cancel-all\<close> each run on a job they cancel: the status and the three cleared
  fields, then the kill and the deregistration of the job's worker if one is registered.\<close>

definition cancel_job :: "state \<Rightarrow> job \<Rightarrow> state" where
  "cancel_job s job =
     (let s1 = set_job s (job\<lparr>status := Cancelled,
                              currentStep := None,
                              waitingStep := None,
                              waitingImage := None\<rparr>)
      in case map_of (runningProcs s1) (job_id job) of
           None \<Rightarrow> s1
         | Some proc \<Rightarrow> s1\<lparr>killed := killed s1 @ [proc],
                            runningProcs := AList.delete (job_id job) (runningProcs s1)\<rparr>)"

definition touchHeartbeat :: "state \<Rightarrow> int \<Rightarrow> state" where
  "touchHeartbeat s now = s\<lparr>lastHeartbeat := now\<rparr>"

definition active :: "state \<Rightarrow> job list" where
  "active s = filter (\<lambda>j. status j = Processing \<or> status j = Pending) (jobs s)"

definition checkHeartbeat :: "state \<Rightarrow> int \<Rightarrow> state" where
  "checkHeartbeat s now =
     (if now - lastHeartbeat s < HEARTBEAT_TIMEOUT_MS s then s
      else if length (active s) = 0 then s
      else foldl cancel_job s (active s))"

section \<open>routes/settings.js\<close>

datatype json = JNum rat | JStr string | JBool bool | JNull | JUndefined

text \<open>\<^verbatim>\<open>Math.round\<close>\<close>

definition Math_round :: "rat \<Rightarrow> int" where
  "Math_round v = \<lfloor>v + 1 / 2\<rfloor>"

definition setMaxConcurrent :: "state \<Rightarrow> int \<Rightarrow> state" where
  "setMaxConcurrent s val = s\<lparr>maxConcurrent := val\<rparr>"

text \<open>\<^verbatim>\<open>PUT /settings\<close>: the new state and the response
  \<^verbatim>\<open>{ maxConcurrent, maxConcurrentLimit }\<close>.\<close>

definition put_settings :: "state \<Rightarrow> json \<Rightarrow> state \<times> int \<times> int" where
  "put_settings s val =
     (let s1 = (case val of
                  JNum v \<Rightarrow>
                    if v \<ge> 1 \<and> v \<le> of_int (MAX_CONCURRENT_LIMIT s)
                      then setMaxConcurrent s (Math_round v) else s
                | _ \<Rightarrow> s);
          s2 = processNext s1
      in (s2, maxConcurrent s2, MAX_CONCURRENT_LIMIT s2))"

section \<open>routes/photos.js\<close>

definition post_photo :: "state \<Rightarrow> photo \<Rightarrow> state" where
  "post_photo s p =
     (if list_ex (\<lambda>q. photo_id q = photo_id p) (photos s)
        then s\<lparr>photos := map (\<lambda>q. if photo_id q = photo_id p then p else q) (photos s)\<rparr>
      else s\<lparr>photos := photos s @ [p]\<rparr>)"

definition delete_photo :: "state \<Rightarrow> string \<Rightarrow> state" where
  "delete_photo s pid = s\<lparr>photos := filter (\<lambda>p. photo_id p \<noteq> pid) (photos s)\<rparr>"

definition clear_photos :: "state \<Rightarrow> state" where
  "clear_photos s = s\<lparr>photos := []\<rparr>"

section \<open>routes/jobs.js\<close>

datatype http_error = Status400 string | Status404 string | Status503 string

text \<open>\<^verbatim>\<open>PUT /reorder\<close>\<close>

fun reorder_loop :: "state \<Rightarrow> int \<Rightarrow> string list \<Rightarrow> state" where
  "reorder_loop s index [] = s"
| "reorder_loop s index (jid # rest) =
     reorder_loop
       (case find_job s jid of
          None \<Rightarrow> s
        | Some job \<Rightarrow> if status job = Pending then set_job s (job\<lparr>priority := index\<rparr>) else s)
       (index + 1) rest"

definition put_reorder :: "state \<Rightarrow> string list option \<Rightarrow> http_error + state" where
  "put_reorder s jobIds =
     (case jobIds of
        None \<Rightarrow> Inl (Status400 ''jobIds array required'')
      | Some ids \<Rightarrow> Inr (reorder_loop s 0 ids))"

definition cancellable :: "status \<Rightarrow> bool" where
  "cancellable st = (st = Pending \<or> st = Processing \<or> st = WaitingInput)"

text \<open>\<^verbatim>\<open>POST /cancel-all\<close>\<close>

definition post_cancel_all :: "state \<Rightarrow> state" where
  "post_cancel_all s =
     foldl (\<lambda>s job. if \<not> cancellable (status job) then s else cancel_job s job) s (jobs s)"

text \<open>\<^verbatim>\<open>jobs.set(job.id, job)\<close>\<close>

definition jobs_set :: "state \<Rightarrow> job \<Rightarrow> state" where
  "jobs_set s job =
     (if list_ex (\<lambda>j. job_id j = job_id job) (jobs s) then set_job s job
      else s\<lparr>jobs := jobs s @ [job]\<rparr>)"

definition enqueueJob :: "state \<Rightarrow> job \<Rightarrow> state" where
  "enqueueJob s job = processNext s"

text \<open>\<^verbatim>\<open>POST /\<close>. The body of the request, and for each photo id the values the handler
  draws while it serves it: the job's \<^verbatim>\<open>randomUUID()\<close>, the mask's \<^verbatim>\<open>randomUUID()\<close>,
  and \<^verbatim>\<open>Date.now()\<close>.\<close>

record create_body =
  cb_steps :: "string list"
  cb_options :: "(string \<times> string) list"
  cb_masks :: "(string \<times> string) list"
  cb_cropRects :: "(string \<times> string) list"

definition mask_file :: "string \<Rightarrow> string" where
  "mask_file uuid = path_join UPLOADS_DIR (''mask_'' @ take 8 uuid @ ''.png'')"

definition create_one :: "state \<Rightarrow> create_body \<Rightarrow> string list \<Rightarrow> string \<times> string \<times> string \<times> int \<Rightarrow> state" where
  "create_one s body validSteps d =
     (case d of (pid, jobUuid, maskUuid, now) \<Rightarrow>
       (case find_photo s pid of
          None \<Rightarrow> s
        | Some photo \<Rightarrow>
           (let withMask = (''inpaint'' \<in> set validSteps \<and> truthy (map_of (cb_masks body) pid));
                s1 = (if withMask then s\<lparr>files := mask_file maskUuid # files s\<rparr> else s);
                job = \<lparr> job_id = jobUuid,
                        photoId = pid,
                        photoName = originalName photo,
                        original = ''/uploads/'' @ filename photo,
                        steps = validSteps,
                        options = cb_options body,
                        maskPath = (if withMask then Some (mask_file maskUuid) else None),
                        cropRect = (if ''crop'' \<in> set validSteps
                                       \<and> truthy (map_of (cb_cropRects body) pid)
                                    then map_of (cb_cropRects body) pid else None),
                        status = Pending,
                        progress = 0,
                        createdAt = now,
                        result = None,
                        stepResults = [],
                        priority = now,
                        resumeFromStep = None,
                        currentInputPath = None,
                        currentStep = None,
                        waitingStep = None,
                        waitingImage = None,
                        error = None,
                        failedStep = None,
                        failedStepIndex = None \<rparr>
            in enqueueJob (jobs_set s1 job) job)))"

definition post_jobs :: "state \<Rightarrow> bool \<Rightarrow> create_body \<Rightarrow> (string \<times> string \<times> string \<times> int) list \<Rightarrow> http_error + state" where
  "post_jobs s aiReady body photoIds =
     (if \<not> aiReady then Inl (Status503 ''IA non configuree'')
      else if photoIds = [] \<or> cb_steps body = []
        then Inl (Status400 ''photoIds and steps are required'')
      else
        (let validSteps = filter (\<lambda>k. STEPS k \<noteq> None) (cb_steps body) in
         if validSteps = [] then Inl (Status400 ''No valid steps provided'')
         else Inr (foldl (\<lambda>s d. create_one s body validSteps d) s photoIds)))"

text \<open>\<^verbatim>\<open>GET /\<close> refreshes the heartbeat; its response is a sorted view of the jobs.\<close>

definition get_jobs :: "state \<Rightarrow> int \<Rightarrow> state" where
  "get_jobs s now = touchHeartbeat s now"

text \<open>\<^verbatim>\<open>POST /:id/input\<close>, with the \<^verbatim>\<open>randomUUID()\<close> drawn for the mask file\<close>

definition post_input :: "state \<Rightarrow> string \<Rightarrow> string option \<Rightarrow> string option \<Rightarrow> string \<Rightarrow> http_error + state" where
  "post_input s jid mask' cropRect' maskUuid =
     (case find_job s jid of
        None \<Rightarrow> Inl (Status400 ''Job is not waiting for input'')
      | Some job \<Rightarrow>
          if status job \<noteq> WaitingInput then Inl (Status400 ''Job is not waiting for input'')
          else
            (let withMask = (waitingStep job = Some ''inpaint'' \<and> truthy mask');
                 s1 = (if withMask then s\<lparr>files := mask_file maskUuid # files s\<rparr> else s);
                 job1 = (if withMask then job\<lparr>maskPath := Some (mask_file maskUuid)\<rparr> else job);
                 job2 = (if waitingStep job1 = Some ''crop'' \<and> truthy cropRect'
                         then job1\<lparr>cropRect := cropRect'\<rparr> else job1);
                 job3 = job2\<lparr>waitingStep := None, waitingImage := None\<rparr>
             in Inr (processJob s1 job3)))"

text \<open>\<^verbatim>\<open>POST /:id/skip\<close>\<close>

definition post_skip :: "state \<Rightarrow> string \<Rightarrow> http_error + state" where
  "post_skip s jid =
     (case find_job s jid of
        None \<Rightarrow> Inl (Status400 ''Job is not waiting for input'')
      | Some job \<Rightarrow>
          if status job \<noteq> WaitingInput then Inl (Status400 ''Job is not waiting for input'')
          else Inr (processJob s (job\<lparr>resumeFromStep := Some (resume_index job + 1),
                                       waitingStep := None,
                                       waitingImage := None\<rparr>)))"

text \<open>\<^verbatim>\<open>POST /:id/back\<close>. The search for the target index runs downwards from
  \<^verbatim>\<open>currentIdx - 1\<close>, and gives -1 when no earlier step is manual.\<close>

function back_target :: "string list \<Rightarrow> int \<Rightarrow> int" where
  "back_target stps i =
     (if i \<ge> 0 then
        (if (case js_nth stps i of None \<Rightarrow> False | Some k \<Rightarrow> k \<in> set MANUAL_STEPS) then i
         else back_target stps (i - 1))
      else -1)"
  by pat_completeness auto
termination
  by (relation "measure (\<lambda>(stps, i). nat (i + 1))") auto

declare back_target.simps [simp del]

text \<open>One round of the loop that clears the inputs, for the step key \<open>k\<close>.\<close>

definition clear_input :: "state \<times> job \<Rightarrow> string \<Rightarrow> state \<times> job" where
  "clear_input sj k =
     (case sj of (s, job) \<Rightarrow>
       (let job1 = (if k = ''crop'' then job\<lparr>cropRect := None\<rparr> else job)
        in if k = ''inpaint''
             then (if truthy (maskPath job1) then unlink s (maskPath job1) else s,
                   job1\<lparr>maskPath := None\<rparr>)
           else (s, job1)))"

definition strip_slash :: "string \<Rightarrow> string" where
  "strip_slash u = (case u of c # r \<Rightarrow> if c = CHR ''/'' then r else u | [] \<Rightarrow> [])"

text \<open>The mutations of the handler between the check of the target index and the call
  of \<^verbatim>\<open>processJob\<close>.\<close>

definition rewind :: "state \<Rightarrow> job \<Rightarrow> int \<Rightarrow> state \<times> job" where
  "rewind s job targetIdx =
     (case foldl clear_input (s, job) (drop (nat targetIdx) (steps job)) of (s1, job1) \<Rightarrow>
       (let job2 = job1\<lparr>stepResults := take (nat targetIdx) (stepResults job1)\<rparr>;
            job3 = (if stepResults job2 \<noteq> []
                    then job2\<lparr>currentInputPath :=
                           Some (path_join ROOT (strip_slash (snd (last (stepResults job2)))))\<rparr>
                    else job2\<lparr>currentInputPath :=
                           (case find_photo s1 (photoId job2) of
                              None \<Rightarrow> None
                            | Some photo \<Rightarrow> Some (path_join UPLOADS_DIR (filename photo)))\<rparr>)
        in (s1, job3\<lparr>resumeFromStep := Some targetIdx,
                     waitingStep := None,
                     waitingImage := None\<rparr>)))"

definition post_back :: "state \<Rightarrow> string \<Rightarrow> http_error + state" where
  "post_back s jid =
     (case find_job s jid of
        None \<Rightarrow> Inl (Status400 ''Job is not waiting for input'')
      | Some job \<Rightarrow>
          if status job \<noteq> WaitingInput then Inl (Status400 ''Job is not waiting for input'')
          else
            (let currentIdx = resume_index job;
                 targetIdx = back_target (steps job) (currentIdx - 1)
             in if targetIdx < 0 then Inl (Status400 ''No previous manual step'')
                else (case rewind s job targetIdx of (s1, job1) \<Rightarrow> Inr (processJob s1 job1))))"

text \<open>\<^verbatim>\<open>POST /:id/retry\<close>\<close>

definition post_retry :: "state \<Rightarrow> string \<Rightarrow> string option \<Rightarrow> http_error + state" where
  "post_retry s jid model =
     (case find_job s jid of
        None \<Rightarrow> Inl (Status400 ''Job is not in failed state'')
      | Some job \<Rightarrow>
          if status job \<noteq> Failed then Inl (Status400 ''Job is not in failed state'')
          else
            (let job1 = (case model of
                           None \<Rightarrow> job
                         | Some m \<Rightarrow>
                             (case failedStep job of
                                None \<Rightarrow> job
                              | Some k \<Rightarrow>
                                  if m \<noteq> [] \<and> k \<noteq> []
                                    then job\<lparr>options := AList.update k m (options job)\<rparr>
                                  else job));
                 job2 = job1\<lparr>resumeFromStep :=
                               Some (case failedStepIndex job1 of None \<Rightarrow> 0 | Some k \<Rightarrow> k),
                             status := Processing,
                             error := None,
                             failedStep := None,
                             failedStepIndex := None\<rparr>
             in Inr (processJob s job2)))"

text \<open>\<^verbatim>\<open>POST /:id/skip-failed\<close>\<close>

definition post_skip_failed :: "state \<Rightarrow> string \<Rightarrow> http_error + state" where
  "post_skip_failed s jid =
     (case find_job s jid of
        None \<Rightarrow> Inl (Status400 ''Job is not in failed state'')
      | Some job \<Rightarrow>
          if status job \<noteq> Failed then Inl (Status400 ''Job is not in failed state'')
          else
            (let nextIndex = (case failedStepIndex job of None \<Rightarrow> 0 | Some k \<Rightarrow> k) + 1;
                 job1 = job\<lparr>error := None, failedStep := None, failedStepIndex := None\<rparr>
             in if nextIndex \<ge> int (length (steps job1))
                  then Inr (set_job s (job1\<lparr>status := Completed,
                                            progress := 100,
                                            result := (if stepResults job1 \<noteq> []
                                                       then Some (snd (last (stepResults job1)))
                                                       else None)\<rparr>))
                else Inr (processJob s (job1\<lparr>resumeFromStep := Some nextIndex,
                                              status := Processing\<rparr>))))"

text \<open>\<^verbatim>\<open>POST /:id/cancel\<close>\<close>

definition post_cancel :: "state \<Rightarrow> string \<Rightarrow> http_error + state" where
  "post_cancel s jid =
     (case find_job s jid of
        None \<Rightarrow> Inl (Status404 ''Job not found'')
      | Some job \<Rightarrow>
          if \<not> cancellable (status job) then Inl (Status400 ''Job cannot be cancelled'')
          else Inr (processNext (cancel_job s job)))"

section \<open>The server as a transition system\<close>

text \<open>
  The server is single-threaded: each event below runs to its end before the next one
  starts. An event is a request, a tick of the heartbeat timer, the exit of a worker
  process, or a callback \<^verbatim>\<open>.then(() => processNext())\<close> that a returned
  \<^verbatim>\<open>processJob\<close> has queued. A request that is answered with an error status leaves the
  state as it is.
\<close>

datatype event =
    PostPhoto photo
  | DeletePhoto string
  | ClearPhotos
  | PostJobs bool create_body "(string \<times> string \<times> string \<times> int) list"
  | GetJobs int
  | PostInput string "string option" "string option" string
  | PostSkip string
  | PostBack string
  | PostRetry string "string option"
  | PostSkipFailed string
  | PostCancel string
  | PostCancelAll
  | PutReorder "string list option"
  | PutSettings json
  | HeartbeatTimer int
  | WorkerExit nat "string option"
  | ThenProcessNext

definition accepted :: "state \<Rightarrow> http_error + state \<Rightarrow> state" where
  "accepted s r = (case r of Inl e \<Rightarrow> s | Inr s' \<Rightarrow> s')"

fun apply_event :: "state \<Rightarrow> event \<Rightarrow> state" where
  "apply_event s (PostPhoto p) = post_photo s p"
| "apply_event s (DeletePhoto pid) = delete_photo s pid"
| "apply_event s ClearPhotos = clear_photos s"
| "apply_event s (PostJobs aiReady body photoIds) = accepted s (post_jobs s aiReady body photoIds)"
| "apply_event s (GetJobs now) = get_jobs s now"
| "apply_event s (PostInput jid mask' cropRect' maskUuid) =
     accepted s (post_input s jid mask' cropRect' maskUuid)"
| "apply_event s (PostSkip jid) = accepted s (post_skip s jid)"
| "apply_event s (PostBack jid) = accepted s (post_back s jid)"
| "apply_event s (PostRetry jid model) = accepted s (post_retry s jid model)"
| "apply_event s (PostSkipFailed jid) = accepted s (post_skip_failed s jid)"
| "apply_event s (PostCancel jid) = accepted s (post_cancel s jid)"
| "apply_event s PostCancelAll = post_cancel_all s"
| "apply_event s (PutReorder jobIds) = accepted s (put_reorder s jobIds)"
| "apply_event s (PutSettings val) = fst (put_settings s val)"
| "apply_event s (HeartbeatTimer now) = checkHeartbeat s now"
| "apply_event s (WorkerExit proc err) = worker_exit s proc err"
| "apply_event s ThenProcessNext = processNext s"

text \<open>What the environment guarantees about the values it draws: the identifiers
  that \<^verbatim>\<open>randomUUID()\<close> gives to new jobs are not empty, differ from each other and
  from the identifiers in use.\<close>

definition draw_uuid :: "string \<times> string \<times> string \<times> int \<Rightarrow> string" where
  "draw_uuid d = fst (snd d)"

fun event_ok :: "state \<Rightarrow> event \<Rightarrow> bool" where
  "event_ok s (PostJobs aiReady body photoIds) =
     (distinct (map draw_uuid photoIds)
      \<and> list_all (\<lambda>d. draw_uuid d \<noteq> [] \<and> \<not> list_ex (\<lambda>j. job_id j = draw_uuid d) (jobs s))
           photoIds)"
| "event_ok s ev = True"

text \<open>The state when the server starts, from the environment variables
  \<^verbatim>\<open>MAX_CONCURRENT_JOBS\<close> and \<^verbatim>\<open>HEARTBEAT_TIMEOUT_SECONDS\<close> (absent or an integer)
  and the clock.\<close>

definition initial :: "int option \<Rightarrow> int option \<Rightarrow> int \<Rightarrow> state" where
  "initial max_jobs timeout_seconds now =
     (let limit = max 1 (case max_jobs of None \<Rightarrow> 2 | Some n \<Rightarrow> if n = 0 then 2 else n)
      in \<lparr> photos = [], jobs = [], runningProcs = [],
           maxConcurrent = limit,
           MAX_CONCURRENT_LIMIT = limit,
           HEARTBEAT_TIMEOUT_MS = (case timeout_seconds of None \<Rightarrow> 10 | Some n \<Rightarrow> n) * 1000,
           lastHeartbeat = now,
           awaiting = [], nextProc = 0, killed = [], files = [] \<rparr>)"

inductive reachable :: "state \<Rightarrow> bool" where
  start: "reachable (initial max_jobs timeout_seconds now)"
| step: "reachable s \<Longrightarrow> event_ok s ev \<Longrightarrow> reachable (apply_event s ev)"

text \<open>A run of events from a state, for concrete scenarios.\<close>

definition run :: "state \<Rightarrow> event list \<Rightarrow> state" where
  "run s evs = foldl apply_event s evs"

section \<open>The dispatch pass as the specification words it\<close>

text \<open>The admission rule in the words of the specification: walking the candidates
  with \<open>slotsUsed\<close> slots consumed so far, a candidate that will pause at once is
  dispatched and consumes nothing; any other candidate is dispatched, and consumes one
  slot, when \<open>running + slotsUsed < limit\<close>, and is passed over otherwise. The result is
  the list of the dispatched candidates, in order.\<close>

fun spec_dispatch :: "int \<Rightarrow> int \<Rightarrow> int \<Rightarrow> job list \<Rightarrow> job list" where
  "spec_dispatch running limit slotsUsed [] = []"
| "spec_dispatch running limit slotsUsed (j # js) =
     (if jobWillPauseImmediately j then j # spec_dispatch running limit slotsUsed js
      else if running + slotsUsed < limit then j # spec_dispatch running limit (slotsUsed + 1) js
      else spec_dispatch running limit slotsUsed js)"

section \<open>Concrete scenarios\<close>

definition photo1 :: photo where
  "photo1 = \<lparr>photo_id = ''p1'', filename = ''f1.png'', originalName = ''old photo.png'',
             uploadedAt = 0\<rparr>"

definition body_of :: "string list \<Rightarrow> create_body" where
  "body_of ks = \<lparr>cb_steps = ks, cb_options = [], cb_masks = [], cb_cropRects = []\<rparr>"

text \<open>A server with one compute slot.\<close>

definition server1 :: state where
  "server1 = initial (Some 1) None 0"

text \<open>One job runs \<^verbatim>\<open>face_restore\<close>, one waits for its crop rectangle, one with a
  crop step and one without are pending; then the running worker fails.\<close>

definition scenario_dispatch :: state where
  "scenario_dispatch =
     run server1
       [PostPhoto photo1,
        PostJobs True (body_of [''face_restore'']) [(''p1'', ''job-a'', ''m'', 1)],
        PostJobs True (body_of [''crop'']) [(''p1'', ''job-b'', ''m'', 2)],
        ThenProcessNext,
        PostJobs True (body_of [''crop'', ''upscale'']) [(''p1'', ''job-c'', ''m'', 3)],
        PostJobs True (body_of [''colorize'']) [(''p1'', ''job-d'', ''m'', 4)],
        WorkerExit 0 (Some ''out of memory'')]"

text \<open>The record a job becomes when it is cancelled.\<close>

definition cancelled :: "job \<Rightarrow> job" where
  "cancelled j = j\<lparr>status := Cancelled, currentStep := None, waitingStep := None, waitingImage := None\<rparr>"


text \<open>One job runs, one waits for its crop rectangle, one is pending; the client has
  not polled for 20 seconds.\<close>

definition scenario_heartbeat :: state where
  "scenario_heartbeat =
     run server1
       [PostPhoto photo1,
        PostJobs True (body_of [''face_restore'']) [(''p1'', ''job-a'', ''m'', 1)],
        PostJobs True (body_of [''crop'']) [(''p1'', ''job-b'', ''m'', 2)],
        ThenProcessNext,
        PostJobs True (body_of [''colorize'']) [(''p1'', ''job-d'', ''m'', 4)]]"

text \<open>A server with the default limit of two slots, lowered to one by a client; one job
  runs and one is pending.\<close>

definition server2 :: state where
  "server2 = initial None None 0"

definition scenario_settings :: state where
  "scenario_settings =
     run server2
       [PostPhoto photo1,
        PutSettings (JNum 1),
        PostJobs True (body_of [''face_restore'']) [(''p1'', ''job-a'', ''m'', 1)],
        PostJobs True (body_of [''colorize'']) [(''p1'', ''job-d'', ''m'', 4)]]"

text \<open>A run is admissible when each of its events meets the guarantees of the
  environment in the state it occurs in.\<close>

fun events_ok :: "state \<Rightarrow> event list \<Rightarrow> bool" where
  "events_ok s [] = True"
| "events_ok s (ev # evs) = (event_ok s ev \<and> events_ok (apply_event s ev) evs)"

text \<open>A job whose two steps have the same key: the first worker succeeds.\<close>

definition events_duplicate :: "event list" where
  "events_duplicate =
     [PostPhoto photo1,
      PostJobs True (body_of [''face_restore'', ''face_restore''])
        [(''p1'', ''job-a'', ''m'', 1)],
      WorkerExit 0 None]"

definition scenario_duplicate :: state where
  "scenario_duplicate = run server1 events_duplicate"

text \<open>Three jobs that each start with a crop step and have no crop rectangle; the
  first one, which waits for its input, is cancelled.\<close>

definition events_two_waiting :: "event list" where
  "events_two_waiting =
     [PostPhoto photo1,
      PostJobs True (body_of [''crop''])
        [(''p1'', ''job-a'', ''m'', 1), (''p1'', ''job-b'', ''m'', 2), (''p1'', ''job-c'', ''m'', 3)],
      ThenProcessNext,
      PostCancel ''job-a'',
      ThenProcessNext,
      ThenProcessNext]"

definition scenario_two_waiting :: state where
  "scenario_two_waiting = run server1 events_two_waiting"

text \<open>Whether the step at index \<open>k\<close> of a job is a registered manual stage.\<close>

definition manual_step_at :: "job \<Rightarrow> int \<Rightarrow> bool" where
  "manual_step_at job k =
     (case js_nth (steps job) k of
        None \<Rightarrow> False
      | Some key \<Rightarrow> (case STEPS key of None \<Rightarrow> False | Some d \<Rightarrow> manual d))"

text \<open>A job with a crop and an inpaint step: the crop rectangle is submitted, the crop
  worker succeeds, and the job waits for its mask.\<close>

definition events_rewind :: "event list" where
  "events_rewind =
     [PostPhoto photo1,
      PostJobs True (body_of [''crop'', ''inpaint'']) [(''p1'', ''job-a'', ''m'', 1)],
      ThenProcessNext,
      PostInput ''job-a'' None (Some ''10,10,200,200'') ''m'',
      WorkerExit 0 None,
      ThenProcessNext]"

definition scenario_rewind :: state where
  "scenario_rewind = run server1 events_rewind"

section \<open>Invariants\<close>

text \<open>The three records that the synchronous part of \<^verbatim>\<open>processJob\<close> can leave behind
  for a job: paused at step \<open>i\<close> (lines 75 to 80), started on step \<open>i\<close> (lines 84 and
  85), and completed (lines 124 to 131).\<close>

definition paused :: "job \<Rightarrow> int \<Rightarrow> string \<Rightarrow> string \<Rightarrow> job" where
  "paused job i step currentInput =
     job\<lparr>status := WaitingInput,
         waitingStep := Some step,
         resumeFromStep := Some i,
         currentInputPath := Some currentInput,
         waitingImage := Some (getUrlForPath currentInput),
         progress := round_percent i (int (length (steps job)))\<rparr>"

definition started :: "job \<Rightarrow> int \<Rightarrow> string \<Rightarrow> job" where
  "started job i step =
     job\<lparr>currentStep := Some step,
         progress := round_percent i (int (length (steps job)))\<rparr>"

definition finished :: "job \<Rightarrow> job" where
  "finished job =
     job\<lparr>status := Completed,
         progress := 100,
         currentStep := None,
         waitingStep := None,
         waitingImage := None,
         result := (if stepResults job \<noteq> [] then Some (snd (last (stepResults job)))
                    else None)\<rparr>"

text \<open>A job that waits for input is as the pause left it: it points at a step inside
  \<^verbatim>\<open>steps\<close> that still asks for its input, \<^verbatim>\<open>waitingStep\<close> names that step, and
  \<^verbatim>\<open>waitingImage\<close> is the URL of the current input.\<close>

definition waiting_ok :: "job \<Rightarrow> bool" where
  "waiting_ok j =
     (case resumeFromStep j of
        None \<Rightarrow> False
      | Some k \<Rightarrow>
          0 \<le> k \<and> k < int (length (steps j))
          \<and> waitingStep j = Some (steps j ! nat k)
          \<and> asks_input (STEPS (steps j ! nat k)) j
          \<and> progress j = round_percent k (int (length (steps j)))
          \<and> (case currentInputPath j of
                None \<Rightarrow> False
              | Some p \<Rightarrow> p \<noteq> [] \<and> waitingImage j = Some (getUrlForPath p)))"

definition job_inv :: "job \<Rightarrow> bool" where
  "job_inv j =
     (resume_index j \<le> int (length (steps j))
      \<and> (case failedStepIndex j of None \<Rightarrow> True | Some k \<Rightarrow> k < int (length (steps j)))
      \<and> (status j \<noteq> Failed \<longrightarrow> failedStep j = None \<and> failedStepIndex j = None)
      \<and> (status j = WaitingInput \<longrightarrow> waiting_ok j))"

text \<open>Every suspended invocation of \<^verbatim>\<open>processJob\<close> belongs to a stored job that is
  processing or cancelled, and a processing job has at most one.\<close>

definition frames_inv :: "state \<Rightarrow> bool" where
  "frames_inv s =
     ((\<forall>f \<in> set (awaiting s). fr_outputPath f \<noteq> []
          \<and> (\<exists>j \<in> set (jobs s). job_id j = fr_job f
                \<and> (status j = Processing \<or> status j = Cancelled)))
      \<and> (\<forall>j \<in> set (jobs s). status j = Processing \<longrightarrow>
            length (filter (\<lambda>f. fr_job f = job_id j) (awaiting s)) \<le> 1))"

definition state_inv :: "state \<Rightarrow> bool" where
  "state_inv s =
     (distinct (map job_id (jobs s)) \<and> (\<forall>j \<in> set (jobs s). job_inv j) \<and> frames_inv s)"

text \<open>No invocation of \<^verbatim>\<open>processJob\<close> is suspended for the stored job \<open>jid\<close>.\<close>

definition settled :: "state \<Rightarrow> string \<Rightarrow> bool" where
  "settled s jid =
     (jid \<in> job_id ` set (jobs s) \<and> (\<forall>f \<in> set (awaiting s). fr_job f \<noteq> jid))"

text \<open>A job record that \<^verbatim>\<open>processJob\<close> may be started on.\<close>

definition clean :: "job \<Rightarrow> bool" where
  "clean j =
     (failedStep j = None \<and> failedStepIndex j = None
      \<and> resume_index j \<le> int (length (steps j)))"

text \<open>The states in which the synchronous part of \<^verbatim>\<open>processJob\<close> can leave \<open>s\<close>
  for the job record \<open>job\<close> and the current input \<open>c\<close>: paused at a step that asks
  for input, suspended at a worker, stopped at the first cancellation check, or
  completed.\<close>

definition loop_outcome :: "state \<Rightarrow> job \<Rightarrow> string \<Rightarrow> state \<Rightarrow> bool" where
  "loop_outcome s job c r =
     ((\<exists>k. 0 \<le> k \<and> k < int (length (steps job))
          \<and> asks_input (STEPS (steps job ! nat k)) job
          \<and> r = set_job s (paused job k (steps job ! nat k) c))
      \<or> (\<exists>k fr. 0 \<le> k \<and> k < int (length (steps job)) \<and> status job \<noteq> Cancelled
            \<and> fr_job fr = job_id job \<and> fr_outputPath fr \<noteq> []
            \<and> r = runPythonStep (set_job s (started job k (steps job ! nat k))) fr)
      \<or> (\<exists>k. 0 \<le> k \<and> k < int (length (steps job)) \<and> status job = Cancelled
            \<and> r = set_job s (started job k (steps job ! nat k)))
      \<or> r = set_job s (finished job))"

text \<open>One slot. A job waits for its crop rectangle while another one runs; then the
  rectangle is submitted.\<close>

definition events_resume :: "event list" where
  "events_resume =
     [PostPhoto photo1,
      PostJobs True (body_of [''crop'', ''face_restore'']) [(''p1'', ''job-b'', ''m'', 1)],
      ThenProcessNext,
      PostJobs True (body_of [''face_restore'']) [(''p1'', ''job-a'', ''m'', 2)],
      PostInput ''job-b'' None (Some ''10,10,200,200'') ''m'']"

definition scenario_resume :: state where
  "scenario_resume = run server1 events_resume"

text \<open>A job with two automatic steps whose first worker has succeeded.\<close>

definition events_progress :: "event list" where
  "events_progress =
     [PostPhoto photo1,
      PostJobs True (body_of [''face_restore'', ''colorize'']) [(''p1'', ''job-a'', ''m'', 1)],
      WorkerExit 0 None]"

definition scenario_progress :: state where
  "scenario_progress = run server1 events_progress"

text \<open>A job waits for its crop rectangle; its photo is deleted; then the rectangle is
  submitted.\<close>

definition events_photo_gone :: "event list" where
  "events_photo_gone =
     [PostPhoto photo1,
      PostJobs True (body_of [''crop'']) [(''p1'', ''job-a'', ''m'', 1)],
      ThenProcessNext,
      DeletePhoto ''p1'',
      PostInput ''job-a'' None (Some ''10,10,200,200'') ''m'',
      ThenProcessNext]"

definition scenario_photo_gone :: state where
  "scenario_photo_gone = run server1 events_photo_gone"

text \<open>The events of \<open>scenario_dispatch\<close>, and a job that waits for its crop rectangle.\<close>

definition events_dispatch :: "event list" where
  "events_dispatch =
     [PostPhoto photo1,
      PostJobs True (body_of [''face_restore'']) [(''p1'', ''job-a'', ''m'', 1)],
      PostJobs True (body_of [''crop'']) [(''p1'', ''job-b'', ''m'', 2)],
      ThenProcessNext,
      PostJobs True (body_of [''crop'', ''upscale'']) [(''p1'', ''job-c'', ''m'', 3)],
      PostJobs True (body_of [''colorize'']) [(''p1'', ''job-d'', ''m'', 4)],
      WorkerExit 0 (Some ''out of memory'')]"

definition events_waiting :: "event list" where
  "events_waiting =
     [PostPhoto photo1,
      PostJobs True (body_of [''crop'', ''inpaint'']) [(''p1'', ''job-a'', ''m'', 1)],
      ThenProcessNext]"

definition scenario_waiting :: state where
  "scenario_waiting = run server1 events_waiting"

section \<open>Properties of the pipeline executor\<close>

lemma processJob_loop_maxConcurrent:
  "maxConcurrent (processJob_loop s job origName jobShort i currentInput) = maxConcurrent s"
proof (induction s job origName jobShort i currentInput rule: processJob_loop.induct)
  case (1 s job origName jobShort i currentInput)
  show ?case
    apply (subst processJob_loop.simps)
    using 1
    by (simp add: set_job_def runPythonStep_def Let_def split: option.splits)
qed

lemma processJob_maxConcurrent: "maxConcurrent (processJob s job) = maxConcurrent s"
  by (simp add: processJob_def Let_def processJob_loop_maxConcurrent set_job_def
      split: option.splits)

lemma processNext_loop_spec:
  "processNext_loop running slotsUsed s cs =
     foldl processJob s (spec_dispatch running (maxConcurrent s) slotsUsed cs)"
proof (induction cs arbitrary: s slotsUsed)
  case Nil
  show ?case by simp
next
  case (Cons j cs)
  show ?case
    by (simp add: Cons.IH processJob_maxConcurrent Let_def)
qed

lemma step_defs:
  "needsInput crop = Some (\<lambda>job. \<not> truthy (cropRect job))"
  "manual crop"
  "onComplete crop = Some (\<lambda>job. (job\<lparr>cropRect := None\<rparr>, None))"
  "needsInput inpaint = Some (\<lambda>job. \<not> truthy (maskPath job))"
  "manual inpaint"
  "onComplete inpaint = Some (\<lambda>job.
         if truthy (maskPath job) then (job\<lparr>maskPath := None\<rparr>, maskPath job)
         else (job, None))"
  "needsInput spot_removal = None" "\<not> manual spot_removal" "onComplete spot_removal = None"
  "needsInput scratch_removal = None" "\<not> manual scratch_removal" "onComplete scratch_removal = None"
  "needsInput face_restore = None" "\<not> manual face_restore" "onComplete face_restore = None"
  "needsInput colorize = None" "\<not> manual colorize" "onComplete colorize = None"
  "needsInput upscale = None" "\<not> manual upscale" "onComplete upscale = None"
  by (simp_all add: crop_def inpaint_def spot_removal_def scratch_removal_def
      face_restore_def colorize_def upscale_def)

lemma STEPS_cases:
  assumes "STEPS k = Some d"
  shows "(k = ''crop'' \<and> d = crop) \<or> (k = ''inpaint'' \<and> d = inpaint)
       \<or> (k = ''spot_removal'' \<and> d = spot_removal)
       \<or> (k = ''scratch_removal'' \<and> d = scratch_removal)
       \<or> (k = ''face_restore'' \<and> d = face_restore)
       \<or> (k = ''colorize'' \<and> d = colorize) \<or> (k = ''upscale'' \<and> d = upscale)"
  using assms by (simp add: STEPS_def ALL_STEPS_def split: if_splits)

lemma STEPS_manual:
  "STEPS ''crop'' = Some crop" "STEPS ''inpaint'' = Some inpaint"
  by (simp_all add: STEPS_def ALL_STEPS_def)

lemma needsInput_manual: "STEPS k = Some d \<Longrightarrow> needsInput d \<noteq> None \<Longrightarrow> manual d"
  by (drule STEPS_cases) (auto simp: step_defs)

lemma manual_cases:
  assumes "STEPS k = Some d" "manual d"
  shows "k = ''crop'' \<or> k = ''inpaint''"
proof -
  from STEPS_cases [OF assms(1)] have "k = ''crop'' \<or> k = ''inpaint'' \<or> \<not> manual d"
    using step_defs by blast
  with assms(2) show ?thesis by blast
qed

lemma MANUAL_STEPS_eq: "MANUAL_STEPS = [''crop'', ''inpaint'']"
  by (simp add: MANUAL_STEPS_def ALL_STEPS_def step_defs)

lemma MANUAL_STEPS_iff: "k \<in> set MANUAL_STEPS \<longleftrightarrow> (\<exists>d. STEPS k = Some d \<and> manual d)"
proof
  assume "k \<in> set MANUAL_STEPS"
  then have "k = ''crop'' \<or> k = ''inpaint''" by (simp add: MANUAL_STEPS_eq)
  then show "\<exists>d. STEPS k = Some d \<and> manual d"
    using STEPS_manual step_defs(2,5) by blast
next
  assume "\<exists>d. STEPS k = Some d \<and> manual d"
  then obtain d where d: "STEPS k = Some d" "manual d" by blast
  from manual_cases [OF d] show "k \<in> set MANUAL_STEPS"
    unfolding MANUAL_STEPS_eq by auto
qed

lemma jobWillPauseImmediately_iff:
  "jobWillPauseImmediately j \<longleftrightarrow>
     (\<exists>k d. js_nth (steps j) (resume_index j) = Some k \<and> STEPS k = Some d
            \<and> manual d \<and> asks_input (Some d) j)"
proof -
  have "asks_input (Some d) j \<Longrightarrow> STEPS k = Some d \<Longrightarrow> manual d" for k d
    by (rule needsInput_manual [of k d]) (auto simp: asks_input_def split: option.splits)
  then show ?thesis
    by (auto simp: jobWillPauseImmediately_def lookup_step_def Let_def asks_input_def
        split: option.splits)
qed

text \<open>
  \<^bold>\<open>C1.\<close> A dispatch pass takes as candidates exactly the pending jobs, without those
  that have a manual step when some job is waiting for input; it walks them by ascending
  priority; a candidate pauses at once exactly when the step at its resume index is a
  registered manual stage that still needs its input; and the pass calls \<^verbatim>\<open>processJob\<close>
  on the candidates that the admission rule of the specification selects, in that order:
  a pausing candidate always and without consuming a slot, any other one only while the
  jobs that were processing at the start plus the slots consumed so far stay strictly
  below \<^verbatim>\<open>maxConcurrent\<close>.
\<close>

theorem processNext_dispatch:
  "set (candidates s) =
     {j \<in> set (jobs s). status j = Pending \<and>
        ((\<exists>w \<in> set (jobs s). status w = WaitingInput) \<longrightarrow>
           \<not> (\<exists>k \<in> set (steps j). \<exists>d. STEPS k = Some d \<and> manual d))}
   \<and> sorted (map priority (candidates s))
   \<and> (\<forall>j. jobWillPauseImmediately j \<longleftrightarrow>
         (\<exists>k d. js_nth (steps j) (resume_index j) = Some k \<and> STEPS k = Some d
                \<and> manual d \<and> asks_input (Some d) j))
   \<and> processNext s =
       foldl processJob s
         (spec_dispatch (int (length (filter (\<lambda>j. status j = Processing) (jobs s))))
            (maxConcurrent s) 0 (candidates s))"
proof (intro conjI)
  show "set (candidates s) =
     {j \<in> set (jobs s). status j = Pending \<and>
        ((\<exists>w \<in> set (jobs s). status w = WaitingInput) \<longrightarrow>
           \<not> (\<exists>k \<in> set (steps j). \<exists>d. STEPS k = Some d \<and> manual d))}"
    by (auto simp: candidates_def hasWaitingManual_def jobHasManualSteps_def list_ex_iff
        MANUAL_STEPS_iff)
  show "sorted (map priority (candidates s))"
    by (simp add: candidates_def)
  show "\<forall>j. jobWillPauseImmediately j \<longleftrightarrow>
     (\<exists>k d. js_nth (steps j) (resume_index j) = Some k \<and> STEPS k = Some d
            \<and> manual d \<and> asks_input (Some d) j)"
    using jobWillPauseImmediately_iff by blast
  show "processNext s =
     foldl processJob s
       (spec_dispatch (int (length (filter (\<lambda>j. status j = Processing) (jobs s))))
          (maxConcurrent s) 0 (candidates s))"
    by (simp add: processNext_def processNext_loop_spec running_count_def)
qed

theorem processNext_dispatch_witness:
  "map job_id (candidates scenario_dispatch) = [''job-d'']
   \<and> map (\<lambda>j. (job_id j, status j, jobHasManualSteps j)) (jobs scenario_dispatch) =
       [(''job-a'', Failed, False), (''job-b'', WaitingInput, True),
        (''job-c'', Pending, True), (''job-d'', Pending, False)]
   \<and> processNext scenario_dispatch =
       foldl processJob scenario_dispatch (spec_dispatch 0 1 0 (candidates scenario_dispatch))
   \<and> map (\<lambda>j. (job_id j, status j)) (jobs (processNext scenario_dispatch)) =
       [(''job-a'', Failed), (''job-b'', WaitingInput), (''job-c'', Pending),
        (''job-d'', Processing)]"
proof -
  have a: "map job_id (candidates scenario_dispatch) = [''job-d'']"
    by code_simp
  have b: "map (\<lambda>j. (job_id j, status j, jobHasManualSteps j)) (jobs scenario_dispatch) =
       [(''job-a'', Failed, False), (''job-b'', WaitingInput, True),
        (''job-c'', Pending, True), (''job-d'', Pending, False)]"
    by code_simp
  have c: "int (length (filter (\<lambda>j. status j = Processing) (jobs scenario_dispatch))) = 0"
    by code_simp
  have d: "maxConcurrent scenario_dispatch = 1"
    by code_simp
  have e: "map (\<lambda>j. (job_id j, status j)) (jobs (processNext scenario_dispatch)) =
       [(''job-a'', Failed), (''job-b'', WaitingInput), (''job-c'', Pending),
        (''job-d'', Processing)]"
    by code_simp
  from processNext_dispatch [of scenario_dispatch]
  have "processNext scenario_dispatch =
       foldl processJob scenario_dispatch (spec_dispatch 0 1 0 (candidates scenario_dispatch))"
    unfolding c d by blast
  with a b e show ?thesis by blast
qed

section \<open>Runs\<close>

lemma reachable_run: "reachable s \<Longrightarrow> events_ok s evs \<Longrightarrow> reachable (run s evs)"
proof (induction evs arbitrary: s)
  case Nil
  then show ?case by (simp add: run_def)
next
  case (Cons ev evs)
  from Cons.prems have "reachable (apply_event s ev)" "events_ok (apply_event s ev) evs"
    by (simp_all add: reachable.step)
  then have "reachable (run (apply_event s ev) evs)" by (rule Cons.IH)
  then show ?case by (simp add: run_def)
qed

lemma reachable_server1: "reachable server1"
  unfolding server1_def by (rule reachable.start)

section \<open>The input focus\<close>

text \<open>
  \<^bold>\<open>C2.\<close> The code at the failing input: three jobs whose first step is a crop without
  rectangle are created in one request, the first one takes the input focus and the two
  others stay pending; when the first is cancelled, the dispatch pass that the cancel
  route runs starts both pending jobs, and both sit in \<^verbatim>\<open>waiting_input\<close>. The state is
  reachable.
\<close>

theorem two_jobs_waiting_input:
  "reachable scenario_two_waiting
   \<and> map (\<lambda>j. (job_id j, status j, waitingStep j)) (jobs scenario_two_waiting) =
       [(''job-a'', Cancelled, None), (''job-b'', WaitingInput, Some ''crop''),
        (''job-c'', WaitingInput, Some ''crop'')]
   \<and> length (filter (\<lambda>j. status j = WaitingInput) (jobs scenario_two_waiting)) = 2"
proof -
  have "events_ok server1 events_two_waiting"
    by code_simp
  then have "reachable scenario_two_waiting"
    unfolding scenario_two_waiting_def by (rule reachable_run [OF reachable_server1])
  moreover have "map (\<lambda>j. (job_id j, status j, waitingStep j)) (jobs scenario_two_waiting) =
       [(''job-a'', Cancelled, None), (''job-b'', WaitingInput, Some ''crop''),
        (''job-c'', WaitingInput, Some ''crop'')]"
    by code_simp
  moreover have "length (filter (\<lambda>j. status j = WaitingInput) (jobs scenario_two_waiting)) = 2"
    by code_simp
  ultimately show ?thesis by blast
qed

section \<open>Failure of a worker\<close>

text \<open>
  \<^bold>\<open>C4.\<close> The code at the failing input: a job with the steps
  \<^verbatim>\<open>[face_restore, face_restore]\<close> whose first worker succeeded is suspended at step index
  1; when that worker fails, the job becomes failed with the step key and the message,
  and without a second step result, but with \<^verbatim>\<open>failedStepIndex = 0\<close>, the first index
  that holds the key, not the index 1 of the step that failed.
\<close>

theorem failedStepIndex_first_occurrence:
  "map (\<lambda>f. (fr_proc f, fr_job f, fr_i f, fr_step f)) (awaiting scenario_duplicate) =
     [(1, ''job-a'', 1, ''face_restore'')]
   \<and> map (\<lambda>j. (job_id j, status j, steps j, length (stepResults j))) (jobs scenario_duplicate) =
       [(''job-a'', Processing, [''face_restore'', ''face_restore''], 1)]
   \<and> map (\<lambda>j. (status j, failedStep j, failedStepIndex j, error j, length (stepResults j)))
         (jobs (worker_exit scenario_duplicate 1 (Some ''CUDA out of memory''))) =
       [(Failed, Some ''face_restore'', Some 0, Some ''CUDA out of memory'', 1)]"
proof -
  have "map (\<lambda>f. (fr_proc f, fr_job f, fr_i f, fr_step f)) (awaiting scenario_duplicate) =
     [(1, ''job-a'', 1, ''face_restore'')]"
    by code_simp
  moreover have "map (\<lambda>j. (job_id j, status j, steps j, length (stepResults j)))
       (jobs scenario_duplicate) =
       [(''job-a'', Processing, [''face_restore'', ''face_restore''], 1)]"
    by code_simp
  moreover have "map (\<lambda>j. (status j, failedStep j, failedStepIndex j, error j, length (stepResults j)))
         (jobs (worker_exit scenario_duplicate 1 (Some ''CUDA out of memory''))) =
       [(Failed, Some ''face_restore'', Some 0, Some ''CUDA out of memory'', 1)]"
    by code_simp
  ultimately show ?thesis by blast
qed

section \<open>Rewind\<close>

lemma manual_step_at_iff:
  "manual_step_at job k \<longleftrightarrow>
     (case js_nth (steps job) k of None \<Rightarrow> False | Some key \<Rightarrow> key \<in> set MANUAL_STEPS)"
  by (auto simp: manual_step_at_def MANUAL_STEPS_iff split: option.splits)

lemma back_target_spec:
  "(back_target (steps job) i < 0 \<longrightarrow> (\<forall>k. 0 \<le> k \<and> k \<le> i \<longrightarrow> \<not> manual_step_at job k))
   \<and> (0 \<le> back_target (steps job) i \<longrightarrow>
        back_target (steps job) i \<le> i \<and> manual_step_at job (back_target (steps job) i)
        \<and> (\<forall>k. back_target (steps job) i < k \<and> k \<le> i \<longrightarrow> \<not> manual_step_at job k))"
proof (induction "steps job" i rule: back_target.induct)
  case (1 i)
  show ?case
  proof (cases "i \<ge> 0")
    case False
    then have "back_target (steps job) i = -1"
      by (subst back_target.simps) simp
    then show ?thesis using False by auto
  next
    case True
    show ?thesis
    proof (cases "manual_step_at job i")
      case m: True
      then have "back_target (steps job) i = i"
        using True by (subst back_target.simps) (simp add: manual_step_at_iff)
      then show ?thesis using m True by auto
    next
      case m: False
      then have eq: "back_target (steps job) i = back_target (steps job) (i - 1)"
        using True by (subst back_target.simps) (simp add: manual_step_at_iff)
      have c: "\<not> (case js_nth (steps job) i of None \<Rightarrow> False
                     | Some k \<Rightarrow> k \<in> set MANUAL_STEPS)"
        using m unfolding manual_step_at_iff .
      have ih: "(back_target (steps job) (i - 1) < 0 \<longrightarrow>
                  (\<forall>k. 0 \<le> k \<and> k \<le> i - 1 \<longrightarrow> \<not> manual_step_at job k))
        \<and> (0 \<le> back_target (steps job) (i - 1) \<longrightarrow>
             back_target (steps job) (i - 1) \<le> i - 1
             \<and> manual_step_at job (back_target (steps job) (i - 1))
             \<and> (\<forall>k. back_target (steps job) (i - 1) < k \<and> k \<le> i - 1 \<longrightarrow>
                   \<not> manual_step_at job k))"
        by (rule 1 [OF True c])
      have nm: "\<not> manual_step_at job k" if "k \<le> i" "\<not> k \<le> i - 1" for k
      proof -
        from that have "k = i" by arith
        then show ?thesis using m by simp
      qed
      show ?thesis
        unfolding eq
      proof (intro conjI impI allI)
        fix k assume "back_target (steps job) (i - 1) < 0" "0 \<le> k \<and> k \<le> i"
        then show "\<not> manual_step_at job k" using ih nm by blast
      next
        assume "0 \<le> back_target (steps job) (i - 1)"
        then have "back_target (steps job) (i - 1) \<le> i - 1" using ih by blast
        then show "back_target (steps job) (i - 1) \<le> i" by arith
      next
        assume "0 \<le> back_target (steps job) (i - 1)"
        then show "manual_step_at job (back_target (steps job) (i - 1))" using ih by blast
      next
        fix k assume "0 \<le> back_target (steps job) (i - 1)"
          "back_target (steps job) (i - 1) < k \<and> k \<le> i"
        then show "\<not> manual_step_at job k" using ih nm by blast
      qed
    qed
  qed
qed

lemma clear_input_step:
  "clear_input (s, job) k =
     (if k = ''inpaint'' \<and> truthy (maskPath job) then unlink s (maskPath job) else s,
      job\<lparr>cropRect := (if k = ''crop'' then None else cropRect job),
          maskPath := (if k = ''inpaint'' then None else maskPath job)\<rparr>)"
proof -
  have ne: "''crop'' \<noteq> ''inpaint''" by simp
  show ?thesis
    using ne by (cases "k = ''crop''"; cases "k = ''inpaint''") (simp_all add: clear_input_def)
qed

lemma clear_input_fold:
  "foldl clear_input (s, job) ks =
     (if ''inpaint'' \<in> set ks \<and> truthy (maskPath job) then unlink s (maskPath job) else s,
      job\<lparr>cropRect := (if ''crop'' \<in> set ks then None else cropRect job),
          maskPath := (if ''inpaint'' \<in> set ks then None else maskPath job)\<rparr>)"
proof (induction ks arbitrary: s job)
  case Nil
  show ?case by simp
next
  case (Cons k ks)
  show ?case
    by (cases "k = ''crop''"; cases "k = ''inpaint''")
       (simp_all add: Cons.IH clear_input_step)
qed

lemma find_photo_unlink: "find_photo (unlink s p) pid = find_photo s pid"
  by (simp add: find_photo_def unlink_def split: option.splits)

lemma rewind_eq:
  "rewind s job t =
     (if ''inpaint'' \<in> set (drop (nat t) (steps job)) \<and> truthy (maskPath job)
      then unlink s (maskPath job) else s,
      job\<lparr>cropRect := (if ''crop'' \<in> set (drop (nat t) (steps job)) then None else cropRect job),
          maskPath := (if ''inpaint'' \<in> set (drop (nat t) (steps job)) then None else maskPath job),
          stepResults := take (nat t) (stepResults job),
          currentInputPath :=
            (if take (nat t) (stepResults job) \<noteq> []
             then Some (path_join ROOT (strip_slash (snd (last (take (nat t) (stepResults job))))))
             else (case find_photo s (photoId job) of
                     None \<Rightarrow> None
                   | Some photo \<Rightarrow> Some (path_join UPLOADS_DIR (filename photo)))),
          resumeFromStep := Some t,
          waitingStep := None,
          waitingImage := None\<rparr>)"
  unfolding rewind_def clear_input_fold
  by (simp add: Let_def find_photo_unlink del: take_eq_Nil)





section \<open>Heartbeat\<close>

lemma job_id_cancelled [simp]: "job_id (cancelled j) = job_id j"
  by (simp add: cancelled_def)

lemma jobs_cancel_job:
  "jobs (cancel_job s j) = map (\<lambda>x. if job_id x = job_id j then cancelled j else x) (jobs s)"
  by (simp add: cancel_job_def set_job_def cancelled_def Let_def split: option.splits)

lemma same_id_same_job:
  "distinct (map job_id js) \<Longrightarrow> j \<in> set js \<Longrightarrow> x \<in> set js \<Longrightarrow> job_id x = job_id j \<Longrightarrow> x = j"
  by (meson distinct_map inj_onD)

lemma jobs_foldl_cancel_job:
  "distinct (map job_id (jobs s)) \<Longrightarrow> set js \<subseteq> set (jobs s) \<Longrightarrow> distinct (map job_id js) \<Longrightarrow>
   jobs (foldl cancel_job s js) =
     map (\<lambda>x. if job_id x \<in> job_id ` set js then cancelled x else x) (jobs s)"
proof (induction js arbitrary: s)
  case Nil
  show ?case by simp
next
  case (Cons j js)
  let ?s1 = "cancel_job s j"
  have j: "j \<in> set (jobs s)" using Cons.prems(2) by simp
  have eq1: "jobs ?s1 = map (\<lambda>x. if job_id x = job_id j then cancelled x else x) (jobs s)"
    unfolding jobs_cancel_job
    using same_id_same_job [OF Cons.prems(1) j] by (intro map_cong) auto
  have d1: "distinct (map job_id (jobs ?s1))"
  proof -
    have "map job_id (jobs ?s1) = map job_id (jobs s)"
      unfolding eq1 by (simp add: comp_def if_distrib cong: if_cong)
    then show ?thesis using Cons.prems(1) by simp
  qed
  have notin: "job_id j \<notin> job_id ` set js" using Cons.prems(3) by simp
  have sub: "set js \<subseteq> set (jobs ?s1)"
  proof
    fix x assume x: "x \<in> set js"
    then have "job_id x \<noteq> job_id j" using notin by (metis imageI)
    moreover have "x \<in> set (jobs s)" using x Cons.prems(2) by auto
    ultimately show "x \<in> set (jobs ?s1)" unfolding eq1 by force
  qed
  have d2: "distinct (map job_id js)" using Cons.prems(3) by simp
  have "jobs (foldl cancel_job ?s1 js) =
     map (\<lambda>x. if job_id x \<in> job_id ` set js then cancelled x else x) (jobs ?s1)"
    by (rule Cons.IH [OF d1 sub d2])
  also have "\<dots> = map (\<lambda>x. if job_id x \<in> job_id ` set (j # js) then cancelled x else x) (jobs s)"
    unfolding eq1 using notin by (auto simp: comp_def)
  finally show ?case by simp
qed

lemma procs_cancel_job:
  "map_of (runningProcs (cancel_job s j)) k =
     (if k = job_id j then None else map_of (runningProcs s) k)"
  by (simp add: cancel_job_def set_job_def Let_def delete_conv' split: option.splits)

lemma procs_foldl_cancel_job:
  "map_of (runningProcs (foldl cancel_job s js)) k =
     (if k \<in> job_id ` set js then None else map_of (runningProcs s) k)"
  by (induction js arbitrary: s) (auto simp: procs_cancel_job)

lemma killed_cancel_job:
  "set (killed (cancel_job s j)) =
     set (killed s) \<union> (case map_of (runningProcs s) (job_id j) of None \<Rightarrow> {} | Some p \<Rightarrow> {p})"
  by (simp add: cancel_job_def set_job_def Let_def split: option.splits)

lemma killed_foldl_mono:
  "p \<in> set (killed s) \<Longrightarrow> p \<in> set (killed (foldl cancel_job s js))"
  by (induction js arbitrary: s) (simp_all add: killed_cancel_job)

lemma killed_foldl_cancel_job:
  "j \<in> set js \<Longrightarrow> map_of (runningProcs s) (job_id j) = Some p \<Longrightarrow>
   p \<in> set (killed (foldl cancel_job s js))"
proof (induction js arbitrary: s)
  case Nil
  then show ?case by simp
next
  case (Cons a js)
  show ?case
  proof (cases "job_id a = job_id j")
    case True
    then have "p \<in> set (killed (cancel_job s a))"
      using Cons.prems(2) by (simp add: killed_cancel_job)
    then show ?thesis by (simp add: killed_foldl_mono)
  next
    case False
    then have "j \<in> set js" using Cons.prems(1) by auto
    moreover have "map_of (runningProcs (cancel_job s a)) (job_id j) = Some p"
      using False Cons.prems(2) by (simp add: procs_cancel_job)
    ultimately show ?thesis using Cons.IH by simp
  qed
qed

lemma active_sub: "set (active s) \<subseteq> set (jobs s)"
  by (auto simp: active_def)

lemma active_distinct: "distinct (map job_id (jobs s)) \<Longrightarrow> distinct (map job_id (active s))"
  by (simp add: active_def distinct_map_filter)

lemma active_ids:
  "distinct (map job_id (jobs s)) \<Longrightarrow> x \<in> set (jobs s) \<Longrightarrow>
   job_id x \<in> job_id ` set (active s) \<longleftrightarrow> status x = Pending \<or> status x = Processing"
proof -
  assume d: "distinct (map job_id (jobs s))" and x: "x \<in> set (jobs s)"
  show ?thesis
  proof
    assume "job_id x \<in> job_id ` set (active s)"
    then obtain y where y: "y \<in> set (active s)" "job_id y = job_id x" by force
    then have "y \<in> set (jobs s)" using active_sub by blast
    then have "y = x" using same_id_same_job [OF d x] y(2) by blast
    then show "status x = Pending \<or> status x = Processing"
      using y(1) by (auto simp: active_def)
  next
    assume "status x = Pending \<or> status x = Processing"
    then have "x \<in> set (active s)" using x by (auto simp: active_def)
    then show "job_id x \<in> job_id ` set (active s)" by blast
  qed
qed

text \<open>
  \<^bold>\<open>C8.\<close> When the heartbeat check fires after the timeout: if some job is pending or
  processing, every such job becomes cancelled with \<^verbatim>\<open>currentStep\<close>, \<^verbatim>\<open>waitingStep\<close>
  and \<^verbatim>\<open>waitingImage\<close> cleared, no worker stays registered for it, and the worker that
  was registered for it has been killed; every other job, in particular every job
  waiting for input, is unchanged. If no job is pending or processing, nothing changes.
\<close>

theorem checkHeartbeat_timeout:
  assumes "now - lastHeartbeat s \<ge> HEARTBEAT_TIMEOUT_MS s"
    and "distinct (map job_id (jobs s))"
  shows "if \<exists>j \<in> set (jobs s). status j = Pending \<or> status j = Processing
         then jobs (checkHeartbeat s now) =
                map (\<lambda>j. if status j = Pending \<or> status j = Processing
                          then j\<lparr>status := Cancelled, currentStep := None,
                                 waitingStep := None, waitingImage := None\<rparr>
                          else j) (jobs s)
              \<and> (\<forall>j \<in> set (jobs s). status j = Pending \<or> status j = Processing \<longrightarrow>
                    map_of (runningProcs (checkHeartbeat s now)) (job_id j) = None
                    \<and> (\<forall>p. map_of (runningProcs s) (job_id j) = Some p \<longrightarrow>
                          p \<in> set (killed (checkHeartbeat s now))))
              \<and> (\<forall>j \<in> set (jobs s). status j = WaitingInput \<longrightarrow>
                    j \<in> set (jobs (checkHeartbeat s now)))
         else checkHeartbeat s now = s"
proof (cases "\<exists>j \<in> set (jobs s). status j = Pending \<or> status j = Processing")
  case False
  then have "active s = []" by (auto simp: active_def filter_empty_conv)
  then have "checkHeartbeat s now = s" by (simp add: checkHeartbeat_def)
  with False show ?thesis by simp
next
  case True
  then have ne: "active s \<noteq> []" by (auto simp: active_def filter_empty_conv)
  have ch: "checkHeartbeat s now = foldl cancel_job s (active s)"
    using assms(1) ne by (simp add: checkHeartbeat_def)
  have js: "jobs (checkHeartbeat s now) =
                map (\<lambda>j. if status j = Pending \<or> status j = Processing
                          then j\<lparr>status := Cancelled, currentStep := None,
                                 waitingStep := None, waitingImage := None\<rparr>
                          else j) (jobs s)"
    unfolding ch jobs_foldl_cancel_job [OF assms(2) active_sub active_distinct [OF assms(2)]]
    by (rule map_cong) (simp_all add: active_ids [OF assms(2)] cancelled_def)
  have procs: "map_of (runningProcs (checkHeartbeat s now)) (job_id j) = None
               \<and> (\<forall>p. map_of (runningProcs s) (job_id j) = Some p \<longrightarrow>
                          p \<in> set (killed (checkHeartbeat s now)))"
    if "j \<in> set (jobs s)" "status j = Pending \<or> status j = Processing" for j
  proof -
    have a: "j \<in> set (active s)" using that by (auto simp: active_def)
    then show ?thesis
      unfolding ch using killed_foldl_cancel_job [OF a]
      by (simp add: procs_foldl_cancel_job)
  qed
  have waiting: "j \<in> set (jobs (checkHeartbeat s now))"
    if "j \<in> set (jobs s)" "status j = WaitingInput" for j
    unfolding js using that by force
  from True js procs waiting show ?thesis by simp
qed


theorem checkHeartbeat_timeout_witness:
  "20000 - lastHeartbeat scenario_heartbeat \<ge> HEARTBEAT_TIMEOUT_MS scenario_heartbeat
   \<and> map (\<lambda>j. (job_id j, status j)) (jobs scenario_heartbeat) =
       [(''job-a'', Processing), (''job-b'', WaitingInput), (''job-d'', Pending)]
   \<and> runningProcs scenario_heartbeat = [(''job-a'', 0)]
   \<and> jobs (checkHeartbeat scenario_heartbeat 20000) =
       map (\<lambda>j. if status j = Pending \<or> status j = Processing
                 then j\<lparr>status := Cancelled, currentStep := None,
                        waitingStep := None, waitingImage := None\<rparr>
                 else j) (jobs scenario_heartbeat)
   \<and> map_of (runningProcs (checkHeartbeat scenario_heartbeat 20000)) ''job-a'' = None
   \<and> 0 \<in> set (killed (checkHeartbeat scenario_heartbeat 20000))"
proof -
  have h1: "20000 - lastHeartbeat scenario_heartbeat \<ge> HEARTBEAT_TIMEOUT_MS scenario_heartbeat"
    by code_simp
  have h2: "distinct (map job_id (jobs scenario_heartbeat))"
    by code_simp
  have a: "map (\<lambda>j. (job_id j, status j)) (jobs scenario_heartbeat) =
       [(''job-a'', Processing), (''job-b'', WaitingInput), (''job-d'', Pending)]"
    by code_simp
  have b: "runningProcs scenario_heartbeat = [(''job-a'', 0)]"
    by code_simp
  have c: "\<exists>j \<in> set (jobs scenario_heartbeat). status j = Pending \<or> status j = Processing"
    by code_simp
  have d: "\<exists>j \<in> set (jobs scenario_heartbeat). job_id j = ''job-a'' \<and> status j = Processing"
    by code_simp
  from checkHeartbeat_timeout [OF h1 h2] c
  have e: "jobs (checkHeartbeat scenario_heartbeat 20000) =
       map (\<lambda>j. if status j = Pending \<or> status j = Processing
                 then j\<lparr>status := Cancelled, currentStep := None,
                        waitingStep := None, waitingImage := None\<rparr>
                 else j) (jobs scenario_heartbeat)"
    and f: "\<forall>j \<in> set (jobs scenario_heartbeat). status j = Pending \<or> status j = Processing \<longrightarrow>
                    map_of (runningProcs (checkHeartbeat scenario_heartbeat 20000)) (job_id j) = None
                    \<and> (\<forall>p. map_of (runningProcs scenario_heartbeat) (job_id j) = Some p \<longrightarrow>
                          p \<in> set (killed (checkHeartbeat scenario_heartbeat 20000)))"
    by simp_all
  from d f b have "map_of (runningProcs (checkHeartbeat scenario_heartbeat 20000)) ''job-a'' = None
     \<and> 0 \<in> set (killed (checkHeartbeat scenario_heartbeat 20000))"
    by auto
  with h1 a b e show ?thesis by blast
qed

section \<open>Settings\<close>

lemma processJob_loop_limit:
  "MAX_CONCURRENT_LIMIT (processJob_loop s job origName jobShort i currentInput) = MAX_CONCURRENT_LIMIT s"
proof (induction s job origName jobShort i currentInput rule: processJob_loop.induct)
  case (1 s job origName jobShort i currentInput)
  show ?case
    apply (subst processJob_loop.simps)
    using 1
    by (simp add: set_job_def runPythonStep_def Let_def split: option.splits)
qed

lemma processJob_limit: "MAX_CONCURRENT_LIMIT (processJob s job) = MAX_CONCURRENT_LIMIT s"
  by (simp add: processJob_def Let_def processJob_loop_limit set_job_def
      split: option.splits)

lemma foldl_processJob_config:
  "maxConcurrent (foldl processJob s js) = maxConcurrent s
   \<and> MAX_CONCURRENT_LIMIT (foldl processJob s js) = MAX_CONCURRENT_LIMIT s"
  by (induction js arbitrary: s) (simp_all add: processJob_maxConcurrent processJob_limit)

lemma processNext_config:
  "maxConcurrent (processNext s) = maxConcurrent s"
  "MAX_CONCURRENT_LIMIT (processNext s) = MAX_CONCURRENT_LIMIT s"
  by (simp_all add: processNext_def processNext_loop_spec foldl_processJob_config)

lemma Math_round_bounds:
  assumes "1 \<le> v" "v \<le> of_int L"
  shows "1 \<le> Math_round v \<and> Math_round v \<le> L"
proof -
  have "of_int 1 \<le> v + 1 / 2" using assms(1) by simp
  then have "1 \<le> \<lfloor>v + 1 / 2\<rfloor>" by (simp only: le_floor_iff)
  moreover have "v + 1 / 2 < of_int L + 1" using assms(2) by simp
  then have "\<lfloor>v + 1 / 2\<rfloor> \<le> L" by (simp only: floor_le_iff)
  ultimately show ?thesis by (simp add: Math_round_def)
qed

text \<open>
  \<^bold>\<open>C9.\<close> \<^verbatim>\<open>PUT /settings\<close> with \<^verbatim>\<open>maxConcurrent = val\<close>: when \<open>val\<close> is a number in
  \<open>[1, MAX_CONCURRENT_LIMIT]\<close>, \<^verbatim>\<open>maxConcurrent\<close> becomes \<^verbatim>\<open>Math.round(val)\<close>, which is
  in the same range, a dispatch pass runs with the new value, and the response carries
  it; for every other \<open>val\<close> (a number out of range, or not a number) \<^verbatim>\<open>maxConcurrent\<close>
  keeps its value and the response carries the current values.
\<close>

theorem put_settings_maxConcurrent:
  "put_settings s val =
     (case val of
        JNum v \<Rightarrow>
          if 1 \<le> v \<and> v \<le> of_int (MAX_CONCURRENT_LIMIT s)
            then (processNext (s\<lparr>maxConcurrent := Math_round v\<rparr>), Math_round v,
                  MAX_CONCURRENT_LIMIT s)
          else (processNext s, maxConcurrent s, MAX_CONCURRENT_LIMIT s)
      | _ \<Rightarrow> (processNext s, maxConcurrent s, MAX_CONCURRENT_LIMIT s))
   \<and> maxConcurrent (fst (put_settings s val)) =
       (case val of
          JNum v \<Rightarrow> if 1 \<le> v \<and> v \<le> of_int (MAX_CONCURRENT_LIMIT s) then Math_round v
                    else maxConcurrent s
        | _ \<Rightarrow> maxConcurrent s)
   \<and> (\<forall>v. 1 \<le> v \<and> v \<le> of_int (MAX_CONCURRENT_LIMIT s) \<longrightarrow>
          1 \<le> Math_round v \<and> Math_round v \<le> MAX_CONCURRENT_LIMIT s)"
proof (intro conjI allI impI)
  show "put_settings s val =
     (case val of
        JNum v \<Rightarrow>
          if 1 \<le> v \<and> v \<le> of_int (MAX_CONCURRENT_LIMIT s)
            then (processNext (s\<lparr>maxConcurrent := Math_round v\<rparr>), Math_round v,
                  MAX_CONCURRENT_LIMIT s)
          else (processNext s, maxConcurrent s, MAX_CONCURRENT_LIMIT s)
      | _ \<Rightarrow> (processNext s, maxConcurrent s, MAX_CONCURRENT_LIMIT s))"
    by (cases val) (simp_all add: put_settings_def Let_def processNext_config setMaxConcurrent_def)
  then show "maxConcurrent (fst (put_settings s val)) =
        (case val of
           JNum v \<Rightarrow> if 1 \<le> v \<and> v \<le> of_int (MAX_CONCURRENT_LIMIT s) then Math_round v
                     else maxConcurrent s
         | _ \<Rightarrow> maxConcurrent s)"
    by (cases val) (simp_all add: processNext_config)
next
  fix v :: rat assume "1 \<le> v \<and> v \<le> of_int (MAX_CONCURRENT_LIMIT s)"
  then show "1 \<le> Math_round v" "Math_round v \<le> MAX_CONCURRENT_LIMIT s"
    using Math_round_bounds by blast+
qed

theorem put_settings_maxConcurrent_witness:
  "maxConcurrent scenario_settings = 1 \<and> MAX_CONCURRENT_LIMIT scenario_settings = 2
   \<and> put_settings scenario_settings (JNum (3 / 2)) =
       (processNext (scenario_settings\<lparr>maxConcurrent := 2\<rparr>), 2, 2)
   \<and> map (\<lambda>j. (job_id j, status j)) (jobs scenario_settings) =
       [(''job-a'', Processing), (''job-d'', Pending)]
   \<and> map (\<lambda>j. (job_id j, status j)) (jobs (fst (put_settings scenario_settings (JNum (3 / 2))))) =
       [(''job-a'', Processing), (''job-d'', Processing)]
   \<and> put_settings scenario_settings (JNum 3) = (processNext scenario_settings, 1, 2)
   \<and> put_settings scenario_settings (JStr ''2'') = (processNext scenario_settings, 1, 2)"
proof -
  have m: "maxConcurrent scenario_settings = 1"
    by code_simp
  have l: "MAX_CONCURRENT_LIMIT scenario_settings = 2"
    by code_simp
  have r: "Math_round (3 / 2) = 2"
    by code_simp
  have a: "map (\<lambda>j. (job_id j, status j)) (jobs scenario_settings) =
       [(''job-a'', Processing), (''job-d'', Pending)]"
    by code_simp
  have b: "map (\<lambda>j. (job_id j, status j)) (jobs (fst (put_settings scenario_settings (JNum (3 / 2))))) =
       [(''job-a'', Processing), (''job-d'', Processing)]"
    by code_simp
  have c: "put_settings scenario_settings (JNum (3 / 2)) =
       (processNext (scenario_settings\<lparr>maxConcurrent := 2\<rparr>), 2, 2)"
    using put_settings_maxConcurrent [where val = "JNum (3 / 2)" and s = scenario_settings]
    by (simp add: l r)
  have d: "put_settings scenario_settings (JNum 3) = (processNext scenario_settings, 1, 2)"
    using put_settings_maxConcurrent [where val = "JNum 3" and s = scenario_settings]
    by (simp add: l m)
  have e: "put_settings scenario_settings (JStr ''2'') = (processNext scenario_settings, 1, 2)"
    using put_settings_maxConcurrent [where val = "JStr ''2''" and s = scenario_settings]
    by (simp add: l m)
  from m l a b c d e show ?thesis by blast
qed

section \<open>Invariants of the reachable states\<close>

subsection \<open>The synchronous part of the pipeline\<close>

lemma processJob_loop_cases:
  "loop_outcome s job currentInput (processJob_loop s job origName jobShort i currentInput)"
proof (induction s job origName jobShort i currentInput rule: processJob_loop.induct)
  case (1 s job origName jobShort i currentInput)
  let ?R = "processJob_loop s job origName jobShort i currentInput"
  show ?case
  proof (cases "i < int (length (steps job))")
    case False
    then have "?R = set_job s (finished job)"
      by (subst processJob_loop.simps) (simp add: finished_def)
    then show ?thesis by (simp add: loop_outcome_def)
  next
    case lt: True
    show ?thesis
    proof (cases "js_nth (steps job) i")
      case None
      then have "?R = processJob_loop s job origName jobShort (i + 1) currentInput"
        using lt by (subst processJob_loop.simps) simp
      then show ?thesis using 1(1) [OF lt None] by simp
    next
      case (Some step)
      then have i0: "0 \<le> i" and nth: "steps job ! nat i = step"
        by (auto simp: js_nth_def split: if_splits)
      show ?thesis
      proof (cases "STEPS step")
        case None
        then have "?R = processJob_loop s job origName jobShort (i + 1) currentInput"
          using lt Some by (subst processJob_loop.simps) simp
        then show ?thesis using 1(2) [OF lt Some None] by simp
      next
        case sd: (Some stepDef)
        show ?thesis
        proof (cases "asks_input (Some stepDef) job")
          case True
          then have "?R = set_job s (paused job i step currentInput)"
            using lt Some sd by (subst processJob_loop.simps) (simp add: paused_def)
          moreover have "asks_input (STEPS (steps job ! nat i)) job"
            using True sd nth by simp
          ultimately show ?thesis
            unfolding loop_outcome_def using i0 lt nth by blast
        next
          case na: False
          show ?thesis
          proof (cases "status job = Cancelled")
            case True
            then have "?R = set_job s (started job i step)"
              using lt Some sd na by (subst processJob_loop.simps) (simp add: started_def Let_def)
            then show ?thesis
              unfolding loop_outcome_def using True i0 lt nth by blast
          next
            case False
            then have "?R = runPythonStep (set_job s (started job i step))
                 (step_frame (started job i step) origName jobShort i step stepDef currentInput)"
              using lt Some sd na
              by (subst processJob_loop.simps) (simp add: started_def Let_def)
            moreover have "fr_job (step_frame (started job i step) origName jobShort i step
                 stepDef currentInput) = job_id job"
              by (simp add: step_frame_def Let_def started_def)
            moreover have "fr_outputPath (step_frame (started job i step) origName jobShort i
                 step stepDef currentInput) \<noteq> []"
              by (simp add: step_frame_def Let_def path_join_def)
            ultimately show ?thesis
              unfolding loop_outcome_def using False i0 lt nth by blast
          qed
        qed
      qed
    qed
  qed
qed

lemma needsInput_cases:
  assumes "STEPS k = Some d"
  shows "needsInput d = Some (\<lambda>job. \<not> truthy (cropRect job))
       \<or> needsInput d = Some (\<lambda>job. \<not> truthy (maskPath job))
       \<or> needsInput d = None"
  using STEPS_cases [OF assms] by (elim disjE conjE) (simp_all add: step_defs)

lemma asks_input_cong:
  assumes "cropRect j' = cropRect j" "maskPath j' = maskPath j"
  shows "asks_input (STEPS k) j' = asks_input (STEPS k) j"
proof (cases "STEPS k")
  case None
  then show ?thesis by (simp add: asks_input_def)
next
  case (Some d)
  from needsInput_cases [OF Some] show ?thesis
    using assms Some by (elim disjE) (simp_all add: asks_input_def)
qed

lemma paused_fields [simp]:
  "job_id (paused j k st c) = job_id j" "steps (paused j k st c) = steps j"
  "status (paused j k st c) = WaitingInput"
  "failedStep (paused j k st c) = failedStep j"
  "failedStepIndex (paused j k st c) = failedStepIndex j"
  "resumeFromStep (paused j k st c) = Some k"
  "cropRect (paused j k st c) = cropRect j" "maskPath (paused j k st c) = maskPath j"
  "stepResults (paused j k st c) = stepResults j"
  by (simp_all add: paused_def)

lemma started_fields [simp]:
  "job_id (started j k st) = job_id j" "steps (started j k st) = steps j"
  "status (started j k st) = status j"
  "failedStep (started j k st) = failedStep j"
  "failedStepIndex (started j k st) = failedStepIndex j"
  "resumeFromStep (started j k st) = resumeFromStep j"
  "stepResults (started j k st) = stepResults j"
  by (simp_all add: started_def)

lemma finished_fields [simp]:
  "job_id (finished j) = job_id j" "steps (finished j) = steps j"
  "status (finished j) = Completed"
  "failedStep (finished j) = failedStep j"
  "failedStepIndex (finished j) = failedStepIndex j"
  "resumeFromStep (finished j) = resumeFromStep j"
  "stepResults (finished j) = stepResults j"
  by (simp_all add: finished_def)

lemma waiting_ok_paused:
  assumes "0 \<le> k" "k < int (length (steps j))" "asks_input (STEPS (steps j ! nat k)) j" "c \<noteq> []"
  shows "waiting_ok (paused j k (steps j ! nat k) c)"
proof -
  have "asks_input (STEPS (steps j ! nat k)) (paused j k (steps j ! nat k) c)"
    using assms(3) by (simp add: asks_input_cong [of "paused j k (steps j ! nat k) c" j])
  then show ?thesis
    using assms by (simp add: waiting_ok_def) (simp add: paused_def)
qed

lemma job_inv_paused:
  assumes "0 \<le> k" "k < int (length (steps j))" "asks_input (STEPS (steps j ! nat k)) j" "c \<noteq> []"
    and "clean j"
  shows "job_inv (paused j k (steps j ! nat k) c)"
  using waiting_ok_paused [OF assms(1-4)] assms(1,2,5)
  by (simp add: job_inv_def clean_def resume_index_def)

lemma job_inv_started:
  assumes "clean j" "status j \<noteq> WaitingInput"
  shows "job_inv (started j k st)"
  using assms by (simp add: job_inv_def clean_def resume_index_def)

lemma job_inv_finished:
  assumes "clean j"
  shows "job_inv (finished j)"
  using assms by (simp add: job_inv_def clean_def resume_index_def)

lemma jobs_set_job:
  "jobs (set_job s j') = map (\<lambda>x. if job_id x = job_id j' then j' else x) (jobs s)"
  by (simp add: set_job_def)

lemma awaiting_set_job [simp]: "awaiting (set_job s j') = awaiting s"
  by (simp add: set_job_def)

lemma ids_set_job [simp]: "map job_id (jobs (set_job s j')) = map job_id (jobs s)"
  by (simp add: jobs_set_job comp_def if_distrib cong: if_cong)

lemma in_set_job:
  "x \<in> set (jobs (set_job s j')) \<Longrightarrow> x = j' \<or> (x \<in> set (jobs s) \<and> job_id x \<noteq> job_id j')"
  by (auto simp: jobs_set_job split: if_splits)

lemma set_job_mem:
  "job_id j' \<in> job_id ` set (jobs s) \<Longrightarrow> j' \<in> set (jobs (set_job s j'))"
  by (auto simp: jobs_set_job)

lemma set_job_other:
  "x \<in> set (jobs s) \<Longrightarrow> job_id x \<noteq> job_id j' \<Longrightarrow> x \<in> set (jobs (set_job s j'))"
  by (auto simp: jobs_set_job)

text \<open>Writing a job record keeps the invariant when the record satisfies the job
  invariant and either no frame waits for the job, or the record is cancelled, or its
  status is the stored one.\<close>

lemma state_inv_set_job:
  assumes inv: "state_inv s" and j': "job_inv j'"
    and ok: "settled s (job_id j') \<or> (job_id j' \<in> job_id ` set (jobs s) \<and> status j' = Cancelled)
           \<or> (\<exists>j \<in> set (jobs s). job_id j = job_id j' \<and> status j = status j')"
  shows "state_inv (set_job s j')"
proof -
  have d: "distinct (map job_id (jobs s))" using inv by (simp add: state_inv_def)
  have fi: "frames_inv s" using inv by (simp add: state_inv_def)
  have idin: "job_id j' \<in> job_id ` set (jobs s)"
    using ok unfolding settled_def by (metis imageI)
  have 1: "distinct (map job_id (jobs (set_job s j')))" using d by simp
  have 2: "\<forall>x \<in> set (jobs (set_job s j')). job_inv x"
    using inv j' in_set_job by (auto simp: state_inv_def)
  have 3: "fr_outputPath f \<noteq> [] \<and> (\<exists>x \<in> set (jobs (set_job s j')). job_id x = fr_job f
                \<and> (status x = Processing \<or> status x = Cancelled))"
    if f: "f \<in> set (awaiting s)" for f
  proof -
    from fi f obtain x where x: "fr_outputPath f \<noteq> []" "x \<in> set (jobs s)" "job_id x = fr_job f"
      "status x = Processing \<or> status x = Cancelled"
      by (auto simp: frames_inv_def)
    show ?thesis
    proof (cases "job_id x = job_id j'")
      case False
      then show ?thesis using x set_job_other by blast
    next
      case True
      then have ns: "\<not> settled s (job_id j')" using f x(3) by (auto simp: settled_def)
      have "status j' = Processing \<or> status j' = Cancelled"
      proof -
        from ok ns consider "status j' = Cancelled"
          | y where "y \<in> set (jobs s)" "job_id y = job_id j'" "status y = status j'" by blast
        then show ?thesis
        proof cases
          case 1 then show ?thesis by simp
        next
          case 2
          then have "y = x" using same_id_same_job [OF d x(2), of y] True by simp
          then show ?thesis using 2(3) x(4) by simp
        qed
      qed
      then show ?thesis using x(1,3) True set_job_mem [OF idin] by metis
    qed
  qed
  have 4: "length (filter (\<lambda>f. fr_job f = job_id x) (awaiting s)) \<le> 1"
    if x: "x \<in> set (jobs (set_job s j'))" "status x = Processing" for x
  proof -
    from in_set_job [OF x(1)] show ?thesis
    proof
      assume xj: "x = j'"
      show ?thesis
      proof (cases "settled s (job_id j')")
        case True
        then have "filter (\<lambda>f. fr_job f = job_id x) (awaiting s) = []"
          using xj by (auto simp: settled_def filter_empty_conv)
        then show ?thesis by simp
      next
        case False
        then obtain y where y: "y \<in> set (jobs s)" "job_id y = job_id j'" "status y = status j'"
          using ok x(2) xj by auto
        then show ?thesis using fi x(2) xj by (auto simp: frames_inv_def)
      qed
    next
      assume "x \<in> set (jobs s) \<and> job_id x \<noteq> job_id j'"
      then show ?thesis using fi x(2) by (auto simp: frames_inv_def)
    qed
  qed
  show ?thesis
    unfolding state_inv_def frames_inv_def using 1 2 3 4 by simp
qed

subsection \<open>Starting and dispatching jobs\<close>

lemma settled_set_job [simp]: "settled (set_job s j') jid = settled s jid"
proof -
  have "job_id ` set (jobs (set_job s j')) = job_id ` set (jobs s)"
    using ids_set_job [of s j'] by (metis set_map)
  then show ?thesis by (simp add: settled_def)
qed

lemma jobs_runPythonStep [simp]: "jobs (runPythonStep s fr) = jobs s"
  by (simp add: runPythonStep_def)

lemma awaiting_runPythonStep:
  "awaiting (runPythonStep s fr) = awaiting s @ [fr\<lparr>fr_proc := nextProc s\<rparr>]"
  by (simp add: runPythonStep_def)

lemma state_inv_runPythonStep:
  assumes inv: "state_inv s" and st: "settled s (fr_job fr)" and out: "fr_outputPath fr \<noteq> []"
    and pr: "\<exists>j \<in> set (jobs s). job_id j = fr_job fr \<and> status j = Processing"
  shows "state_inv (runPythonStep s fr)"
proof -
  have fi: "frames_inv s" using inv by (simp add: state_inv_def)
  have none: "filter (\<lambda>f. fr_job f = fr_job fr) (awaiting s) = []"
    using st by (auto simp: settled_def filter_empty_conv)
  have 3: "\<forall>f \<in> set (awaiting (runPythonStep s fr)). fr_outputPath f \<noteq> []
          \<and> (\<exists>j \<in> set (jobs s). job_id j = fr_job f
                \<and> (status j = Processing \<or> status j = Cancelled))"
    using fi out pr by (auto simp: awaiting_runPythonStep frames_inv_def)
  have 4: "length (filter (\<lambda>f. fr_job f = job_id x) (awaiting (runPythonStep s fr))) \<le> 1"
    if x: "x \<in> set (jobs s)" "status x = Processing" for x
  proof (cases "fr_job fr = job_id x")
    case True
    then show ?thesis using none by (simp add: awaiting_runPythonStep)
  next
    case False
    then show ?thesis using fi x by (simp add: awaiting_runPythonStep frames_inv_def)
  qed
  show ?thesis
    unfolding state_inv_def frames_inv_def using inv 3 4 by (simp add: state_inv_def)
qed

lemma state_inv_loop:
  assumes inv: "state_inv s" and st: "settled s (job_id job)" and cl: "clean job"
    and pr: "status job = Processing" and c: "c \<noteq> []"
  shows "state_inv (processJob_loop s job origName jobShort i c)"
proof -
  let ?R = "processJob_loop s job origName jobShort i c"
  have idin: "job_id job \<in> job_id ` set (jobs s)" using st by (simp add: settled_def)
  from processJob_loop_cases [of s job c origName jobShort i]
  consider (p) k where "0 \<le> k" "k < int (length (steps job))"
      "asks_input (STEPS (steps job ! nat k)) job"
      "?R = set_job s (paused job k (steps job ! nat k) c)"
    | (a) k fr where "fr_job fr = job_id job" "fr_outputPath fr \<noteq> []"
      "?R = runPythonStep (set_job s (started job k (steps job ! nat k))) fr"
    | (f) "?R = set_job s (finished job)"
    unfolding loop_outcome_def using pr by auto
  then show ?thesis
  proof cases
    case p
    have "job_inv (paused job k (steps job ! nat k) c)"
      by (rule job_inv_paused [OF p(1-3) c cl])
    then show ?thesis unfolding p(4) using inv st by (intro state_inv_set_job) simp_all
  next
    case a
    let ?j = "started job k (steps job ! nat k)"
    have "job_inv ?j" using cl pr by (intro job_inv_started) simp_all
    then have 1: "state_inv (set_job s ?j)" using inv st by (intro state_inv_set_job) simp_all
    have 2: "settled (set_job s ?j) (fr_job fr)" using st a(1) by simp
    have "?j \<in> set (jobs (set_job s ?j))" using idin by (intro set_job_mem) simp
    then have 3: "\<exists>j \<in> set (jobs (set_job s ?j)). job_id j = fr_job fr \<and> status j = Processing"
      using a(1) pr by (intro bexI [of _ ?j]) simp_all
    show ?thesis unfolding a(3) by (rule state_inv_runPythonStep [OF 1 2 a(2) 3])
  next
    case f
    have "job_inv (finished job)" by (rule job_inv_finished [OF cl])
    then show ?thesis unfolding f using inv st by (intro state_inv_set_job) simp_all
  qed
qed

lemma clean_processing [simp]: "clean (j\<lparr>status := st\<rparr>) = clean j"
  by (simp add: clean_def resume_index_def)

lemma state_inv_processJob:
  assumes inv: "state_inv s" and st: "settled s (job_id j0)" and cl: "clean j0"
  shows "state_inv (processJob s j0)"
proof (cases "find_photo s (photoId j0)")
  case None
  have "job_inv (j0\<lparr>status := Failed\<rparr>)"
    using cl by (simp add: job_inv_def clean_def resume_index_def)
  then have "state_inv (set_job s (j0\<lparr>status := Failed\<rparr>))"
    using inv st by (intro state_inv_set_job) simp_all
  then show ?thesis using None by (simp add: processJob_def)
next
  case (Some photo)
  let ?job = "j0\<lparr>status := Processing\<rparr>"
  let ?c = "if truthy (currentInputPath ?job)
            then (case currentInputPath ?job of Some p \<Rightarrow> p | None \<Rightarrow> [])
            else path_join UPLOADS_DIR (filename photo)"
  have c: "?c \<noteq> []"
    by (cases "currentInputPath j0") (simp_all add: path_join_def)
  have "state_inv (processJob_loop s ?job (sanitizeFilename (parse_name (originalName photo)))
          (take 6 (job_id ?job)) (resume_index ?job) ?c)"
    using inv st cl by (intro state_inv_loop [OF _ _ _ _ c]) simp_all
  then show ?thesis using Some by (simp add: processJob_def Let_def)
qed

text \<open>What \<^verbatim>\<open>processJob\<close> changes in the store: the record of its job, and at most one
  new frame, for that job.\<close>

lemma processJob_shape:
  "\<exists>j'. job_id j' = job_id j0 \<and> jobs (processJob s j0) = jobs (set_job s j')
      \<and> ((awaiting (processJob s j0) = awaiting s \<and> status j' \<noteq> Processing)
          \<or> (\<exists>fr. fr_job fr = job_id j0 \<and> awaiting (processJob s j0) = awaiting s @ [fr]))"
proof (cases "find_photo s (photoId j0)")
  case None
  then have "processJob s j0 = set_job s (j0\<lparr>status := Failed\<rparr>)"
    by (simp add: processJob_def)
  then show ?thesis by (intro exI [of _ "j0\<lparr>status := Failed\<rparr>"]) simp
next
  case (Some photo)
  let ?job = "j0\<lparr>status := Processing\<rparr>"
  obtain origName jobShort c where
    eq: "processJob s j0 = processJob_loop s ?job origName jobShort (resume_index ?job) c"
    using Some by (simp add: processJob_def Let_def)
  from processJob_loop_cases [of s ?job c origName jobShort "resume_index ?job"]
  consider (p) k where "processJob s j0 = set_job s (paused ?job k (steps ?job ! nat k) c)"
    | (a) k fr where "fr_job fr = job_id j0"
      "processJob s j0 = runPythonStep (set_job s (started ?job k (steps ?job ! nat k))) fr"
    | (f) "processJob s j0 = set_job s (finished ?job)"
    unfolding loop_outcome_def eq by auto
  then show ?thesis
  proof cases
    case p
    show ?thesis unfolding p
      by (intro exI [of _ "paused ?job k (steps ?job ! nat k) c"]) simp
  next
    case a
    have "fr_job (fr\<lparr>fr_proc := n\<rparr>) = job_id j0" for n using a(1) by simp
    then show ?thesis unfolding a(2)
      by (intro exI [of _ "started ?job k (steps ?job ! nat k)"])
         (simp add: awaiting_runPythonStep)
  next
    case f
    show ?thesis unfolding f by (intro exI [of _ "finished ?job"]) simp
  qed
qed

lemma settled_processJob_other:
  assumes "settled s jid" "jid \<noteq> job_id j0"
  shows "settled (processJob s j0) jid"
proof -
  from processJob_shape [of j0 s] obtain j' where
    j': "job_id j' = job_id j0" "jobs (processJob s j0) = jobs (set_job s j')"
    "awaiting (processJob s j0) = awaiting s
       \<or> (\<exists>fr. fr_job fr = job_id j0 \<and> awaiting (processJob s j0) = awaiting s @ [fr])"
    by blast
  have "job_id ` set (jobs (processJob s j0)) = job_id ` set (jobs s)"
    unfolding j'(2) using ids_set_job [of s j'] by (metis set_map)
  moreover have "\<forall>f \<in> set (awaiting (processJob s j0)). fr_job f \<noteq> jid"
    using j'(3) assms by (auto simp: settled_def)
  ultimately show ?thesis using assms(1) by (simp add: settled_def)
qed

lemma state_inv_foldl_processJob:
  assumes "state_inv s" "\<forall>j \<in> set js. settled s (job_id j) \<and> clean j" "distinct (map job_id js)"
  shows "state_inv (foldl processJob s js)"
  using assms
proof (induction js arbitrary: s)
  case Nil
  then show ?case by simp
next
  case (Cons j js)
  have 1: "state_inv (processJob s j)"
    using Cons.prems by (intro state_inv_processJob) simp_all
  have 2: "\<forall>x \<in> set js. settled (processJob s j) (job_id x) \<and> clean x"
  proof
    fix x assume x: "x \<in> set js"
    have "job_id j \<notin> job_id ` set js" using Cons.prems(3) by simp
    then have "job_id x \<noteq> job_id j" using x by (metis imageI)
    then show "settled (processJob s j) (job_id x) \<and> clean x"
      using Cons.prems(2) x by (simp add: settled_processJob_other)
  qed
  have 3: "distinct (map job_id js)" using Cons.prems(3) by simp
  show ?case using Cons.IH [OF 1 2 3] by simp
qed

lemma spec_dispatch_subset: "set (spec_dispatch r m u cs) \<subseteq> set cs"
  by (induction cs arbitrary: u) auto

lemma spec_dispatch_distinct:
  "distinct (map job_id cs) \<Longrightarrow> distinct (map job_id (spec_dispatch r m u cs))"
proof (induction cs arbitrary: u)
  case Nil
  then show ?case by simp
next
  case (Cons c cs)
  have "job_id c \<notin> job_id ` set (spec_dispatch r m v cs)" for v
    using Cons.prems spec_dispatch_subset [of r m v cs] by auto
  then show ?case using Cons by simp
qed

lemma candidates_subset: "set (candidates s) \<subseteq> {j \<in> set (jobs s). status j = Pending}"
  by (auto simp: candidates_def)

lemma candidates_distinct:
  assumes "distinct (map job_id (jobs s))"
  shows "distinct (map job_id (candidates s))"
proof -
  have "distinct (candidates s)" using assms by (simp add: candidates_def distinct_map)
  moreover have "inj_on job_id (set (candidates s))"
    using assms candidates_subset [of s] by (auto simp: distinct_map intro: inj_on_subset)
  ultimately show ?thesis by (simp add: distinct_map)
qed

lemma unsuspended_settled:
  assumes inv: "state_inv s" and j: "j \<in> set (jobs s)"
    and st: "status j \<noteq> Processing" "status j \<noteq> Cancelled"
  shows "settled s (job_id j)"
proof -
  have "fr_job f \<noteq> job_id j" if f: "f \<in> set (awaiting s)" for f
  proof
    assume eq: "fr_job f = job_id j"
    from inv f obtain x where x: "x \<in> set (jobs s)" "job_id x = fr_job f"
      "status x = Processing \<or> status x = Cancelled"
      by (auto simp: state_inv_def frames_inv_def)
    have "x = j" using same_id_same_job [of "jobs s" j x] inv j x(1,2) eq
      by (simp add: state_inv_def)
    then show False using x(3) st by simp
  qed
  then show ?thesis using j by (auto simp: settled_def)
qed

lemma clean_of_job_inv: "job_inv j \<Longrightarrow> status j \<noteq> Failed \<Longrightarrow> clean j"
  by (simp add: job_inv_def clean_def)

lemma state_inv_processNext:
  assumes inv: "state_inv s"
  shows "state_inv (processNext s)"
proof -
  let ?js = "spec_dispatch (running_count s) (maxConcurrent s) 0 (candidates s)"
  have d: "distinct (map job_id (jobs s))" using inv by (simp add: state_inv_def)
  have "\<forall>j \<in> set ?js. settled s (job_id j) \<and> clean j"
  proof
    fix j assume "j \<in> set ?js"
    then have j: "j \<in> set (jobs s)" "status j = Pending"
      using spec_dispatch_subset candidates_subset by blast+
    then have "job_inv j" using inv by (simp add: state_inv_def)
    then have "clean j" using j(2) by (intro clean_of_job_inv) simp_all
    moreover have "settled s (job_id j)" using j by (intro unsuspended_settled [OF inv]) simp_all
    ultimately show "settled s (job_id j) \<and> clean j" by simp
  qed
  moreover have "distinct (map job_id ?js)"
    by (intro spec_dispatch_distinct candidates_distinct d)
  ultimately have "state_inv (foldl processJob s ?js)"
    by (intro state_inv_foldl_processJob inv)
  then show ?thesis by (simp add: processNext_def processNext_loop_spec)
qed

subsection \<open>Cancellation\<close>

lemma state_inv_cong:
  "jobs s' = jobs s \<Longrightarrow> awaiting s' = awaiting s \<Longrightarrow> state_inv s' = state_inv s"
  by (simp add: state_inv_def frames_inv_def)

lemma find_job_Some: "find_job s jid = Some j \<Longrightarrow> j \<in> set (jobs s) \<and> job_id j = jid"
  by (auto simp: find_job_def find_Some_iff)

lemma find_job_eq:
  assumes "distinct (map job_id (jobs s))" "j \<in> set (jobs s)"
  shows "find_job s (job_id j) = Some j"
proof (cases "find_job s (job_id j)")
  case None
  then show ?thesis using assms(2) by (auto simp: find_job_def find_None_iff)
next
  case (Some x)
  then have "x \<in> set (jobs s)" "job_id x = job_id j" using find_job_Some by blast+
  then have "x = j" using same_id_same_job [OF assms] by simp
  then show ?thesis using Some by simp
qed

lemma job_inv_cancelled:
  "job_inv j \<Longrightarrow> status j \<noteq> Failed \<Longrightarrow> job_inv (cancelled j)"
  by (simp add: job_inv_def cancelled_def resume_index_def)

lemma state_inv_cancel_job:
  assumes inv: "state_inv s" and j: "job_id j \<in> job_id ` set (jobs s)" "job_inv j"
    "status j \<noteq> Failed"
  shows "state_inv (cancel_job s j)"
proof -
  have 1: "state_inv (set_job s (cancelled j))"
    using inv j by (intro state_inv_set_job job_inv_cancelled) (simp_all add: cancelled_def)
  have "jobs (cancel_job s j) = jobs (set_job s (cancelled j))"
    "awaiting (cancel_job s j) = awaiting (set_job s (cancelled j))"
    by (simp_all add: cancel_job_def cancelled_def Let_def split: option.splits)
  then show ?thesis using 1 state_inv_cong by blast
qed

lemma ids_cancel_job [simp]: "map job_id (jobs (cancel_job s j)) = map job_id (jobs s)"
  by (simp add: jobs_cancel_job comp_def if_distrib cong: if_cong)

lemma ids_image_cancel_job: "job_id ` set (jobs (cancel_job s j)) = job_id ` set (jobs s)"
  using ids_cancel_job [of s j] by (metis set_map)

lemma state_inv_foldl_cancel:
  assumes "state_inv s"
    "\<forall>j \<in> set js. job_id j \<in> job_id ` set (jobs s) \<and> job_inv j \<and> status j \<noteq> Failed"
  shows "state_inv (foldl cancel_job s js)"
  using assms
proof (induction js arbitrary: s)
  case Nil
  then show ?case by simp
next
  case (Cons j js)
  have 1: "state_inv (cancel_job s j)"
    using Cons.prems by (intro state_inv_cancel_job) simp_all
  have 2: "\<forall>x \<in> set js.
      job_id x \<in> job_id ` set (jobs (cancel_job s j)) \<and> job_inv x \<and> status x \<noteq> Failed"
    unfolding ids_image_cancel_job using Cons.prems(2) by simp
  show ?case using Cons.IH [OF 1 2] by simp
qed

lemma post_cancel_all_eq:
  "post_cancel_all s = foldl cancel_job s (filter (\<lambda>j. cancellable (status j)) (jobs s))"
proof -
  have "foldl (\<lambda>s job. if \<not> cancellable (status job) then s else cancel_job s job) s0 js =
        foldl cancel_job s0 (filter (\<lambda>j. cancellable (status j)) js)" for s0 js
    by (induction js arbitrary: s0) simp_all
  then show ?thesis by (simp add: post_cancel_all_def)
qed

lemma state_inv_post_cancel_all:
  assumes "state_inv s"
  shows "state_inv (post_cancel_all s)"
  unfolding post_cancel_all_eq
  using assms by (intro state_inv_foldl_cancel) (auto simp: state_inv_def cancellable_def)

lemma state_inv_checkHeartbeat:
  assumes "state_inv s"
  shows "state_inv (checkHeartbeat s now)"
proof -
  have "state_inv (foldl cancel_job s (active s))"
    using assms by (intro state_inv_foldl_cancel) (auto simp: state_inv_def active_def)
  then show ?thesis using assms by (simp add: checkHeartbeat_def)
qed

lemma state_inv_post_cancel:
  assumes "state_inv s"
  shows "state_inv (accepted s (post_cancel s jid))"
proof (cases "find_job s jid")
  case None
  then show ?thesis using assms by (simp add: post_cancel_def accepted_def)
next
  case (Some job)
  show ?thesis
  proof (cases "cancellable (status job)")
    case False
    then show ?thesis using assms Some by (simp add: post_cancel_def accepted_def)
  next
    case True
    from find_job_Some [OF Some] have j: "job \<in> set (jobs s)" by simp
    then have "state_inv (cancel_job s job)"
      using assms True by (intro state_inv_cancel_job) (auto simp: state_inv_def cancellable_def)
    then have "state_inv (processNext (cancel_job s job))" by (rule state_inv_processNext)
    then show ?thesis using Some True by (simp add: post_cancel_def accepted_def)
  qed
qed

subsection \<open>The routes that resume a job\<close>

lemma state_inv_files [simp]: "state_inv (s\<lparr>files := f\<rparr>) = state_inv s"
  by (simp add: state_inv_def frames_inv_def)

lemma settled_files [simp]: "settled (s\<lparr>files := f\<rparr>) jid = settled s jid"
  by (simp add: settled_def)

lemma state_inv_unlink [simp]: "state_inv (unlink s p) = state_inv s"
  by (simp add: unlink_def split: option.splits)

lemma settled_unlink [simp]: "settled (unlink s p) jid = settled s jid"
  by (simp add: unlink_def split: option.splits)

lemma waiting_resume:
  assumes "job_inv j" "status j = WaitingInput"
  shows "0 \<le> resume_index j \<and> resume_index j < int (length (steps j))"
  using assms by (auto simp: job_inv_def waiting_ok_def resume_index_def split: option.splits)

lemma state_inv_post_input:
  assumes inv: "state_inv s"
  shows "state_inv (accepted s (post_input s jid mask' cropRect' maskUuid))"
proof (cases "find_job s jid")
  case None
  then show ?thesis using inv by (simp add: post_input_def accepted_def)
next
  case (Some job)
  show ?thesis
  proof (cases "status job = WaitingInput")
    case False
    then show ?thesis using inv Some by (simp add: post_input_def accepted_def)
  next
    case True
    from find_job_Some [OF Some] have j: "job \<in> set (jobs s)" "job_id job = jid" by simp_all
    have ji: "job_inv job" using inv j by (simp add: state_inv_def)
    have cl: "clean job" using ji True by (intro clean_of_job_inv) simp_all
    have st: "settled s (job_id job)" using True by (intro unsuspended_settled [OF inv j(1)]) simp_all
    define withMask where "withMask = (waitingStep job = Some ''inpaint'' \<and> truthy mask')"
    define s1 where "s1 = (if withMask then s\<lparr>files := mask_file maskUuid # files s\<rparr> else s)"
    define job1 where "job1 = (if withMask then job\<lparr>maskPath := Some (mask_file maskUuid)\<rparr> else job)"
    define job2 where "job2 = (if waitingStep job1 = Some ''crop'' \<and> truthy cropRect'
                         then job1\<lparr>cropRect := cropRect'\<rparr> else job1)"
    define job3 where "job3 = job2\<lparr>waitingStep := None, waitingImage := None\<rparr>"
    have r: "post_input s jid mask' cropRect' maskUuid = Inr (processJob s1 job3)"
      using Some True
      by (simp add: post_input_def Let_def withMask_def s1_def job1_def job2_def job3_def)
    have s1: "s1 = s \<or> (\<exists>f. s1 = s\<lparr>files := f\<rparr>)"
      unfolding s1_def by (cases withMask) auto
    have "job_id job1 = job_id job \<and> clean job1"
      unfolding job1_def using cl by (cases withMask) (simp_all add: clean_def resume_index_def)
    then have "job_id job2 = job_id job \<and> clean job2"
      unfolding job2_def
      by (cases "waitingStep job1 = Some ''crop'' \<and> truthy cropRect'")
         (simp_all add: clean_def resume_index_def)
    then have j3: "job_id job3 = job_id job" "clean job3"
      unfolding job3_def by (simp_all add: clean_def resume_index_def)
    have "state_inv s1" "settled s1 (job_id job3)" using s1 inv st j3(1) by auto
    then have "state_inv (processJob s1 job3)" using j3(2) by (rule state_inv_processJob)
    then show ?thesis by (simp add: r accepted_def)
  qed
qed

lemma state_inv_post_skip:
  assumes inv: "state_inv s"
  shows "state_inv (accepted s (post_skip s jid))"
proof (cases "find_job s jid")
  case None
  then show ?thesis using inv by (simp add: post_skip_def accepted_def)
next
  case (Some job)
  show ?thesis
  proof (cases "status job = WaitingInput")
    case False
    then show ?thesis using inv Some by (simp add: post_skip_def accepted_def)
  next
    case True
    from find_job_Some [OF Some] have j: "job \<in> set (jobs s)" "job_id job = jid" by simp_all
    have ji: "job_inv job" using inv j by (simp add: state_inv_def)
    have cl: "clean job" using ji True by (intro clean_of_job_inv) simp_all
    have st: "settled s (job_id job)" using True by (intro unsuspended_settled [OF inv j(1)]) simp_all
    let ?j = "job\<lparr>resumeFromStep := Some (resume_index job + 1),
                  waitingStep := None, waitingImage := None\<rparr>"
    have "clean ?j" using cl waiting_resume [OF ji True] by (simp add: clean_def resume_index_def)
    then have "state_inv (processJob s ?j)" using inv st by (intro state_inv_processJob) simp_all
    then show ?thesis using Some True by (simp add: post_skip_def accepted_def)
  qed
qed

lemma state_inv_post_back:
  assumes inv: "state_inv s"
  shows "state_inv (accepted s (post_back s jid))"
proof (cases "find_job s jid")
  case None
  then show ?thesis using inv by (simp add: post_back_def accepted_def)
next
  case (Some job)
  show ?thesis
  proof (cases "status job = WaitingInput")
    case False
    then show ?thesis using inv Some by (simp add: post_back_def accepted_def)
  next
    case True
    from find_job_Some [OF Some] have j: "job \<in> set (jobs s)" "job_id job = jid" by simp_all
    have ji: "job_inv job" using inv j by (simp add: state_inv_def)
    have cl: "clean job" using ji True by (intro clean_of_job_inv) simp_all
    have st: "settled s (job_id job)" using True by (intro unsuspended_settled [OF inv j(1)]) simp_all
    define t where "t = back_target (steps job) (resume_index job - 1)"
    show ?thesis
    proof (cases "t < 0")
      case neg: True
      then show ?thesis using inv Some True by (simp add: post_back_def accepted_def Let_def t_def)
    next
      case pos: False
      then have "t \<le> resume_index job - 1"
        using back_target_spec [of job "resume_index job - 1"] by (simp add: t_def)
      then have tl: "t \<le> int (length (steps job))" using waiting_resume [OF ji True] by arith
      obtain s1 job1 where rw: "rewind s job t = (s1, job1)" by (cases "rewind s job t")
      have s1: "state_inv s1" "settled s1 (job_id job)"
        using rw inv st unfolding rewind_eq by (auto split: if_splits)
      have j1: "job_id job1 = job_id job" "clean job1"
        using rw cl tl unfolding rewind_eq by (auto simp: clean_def resume_index_def)
      have "state_inv (processJob s1 job1)"
        using s1 j1 by (intro state_inv_processJob) simp_all
      then show ?thesis
        using Some True pos rw by (simp add: post_back_def accepted_def Let_def t_def [symmetric])
    qed
  qed
qed

lemma state_inv_post_retry:
  assumes inv: "state_inv s"
  shows "state_inv (accepted s (post_retry s jid model))"
proof (cases "find_job s jid")
  case None
  then show ?thesis using inv by (simp add: post_retry_def accepted_def)
next
  case (Some job)
  show ?thesis
  proof (cases "status job = Failed")
    case False
    then show ?thesis using inv Some by (simp add: post_retry_def accepted_def)
  next
    case True
    from find_job_Some [OF Some] have j: "job \<in> set (jobs s)" "job_id job = jid" by simp_all
    have ji: "job_inv job" using inv j by (simp add: state_inv_def)
    have st: "settled s (job_id job)" using True by (intro unsuspended_settled [OF inv j(1)]) simp_all
    have idx: "(case failedStepIndex job of None \<Rightarrow> 0 | Some k \<Rightarrow> k) \<le> int (length (steps job))"
      using ji by (auto simp: job_inv_def split: option.splits)
    obtain job2 where r: "post_retry s jid model = Inr (processJob s job2)"
      and j2: "job_id job2 = job_id job" "clean job2"
      using Some True idx
      by (auto simp: post_retry_def Let_def clean_def resume_index_def split: option.splits)
    have "state_inv (processJob s job2)" using inv st j2 by (intro state_inv_processJob) simp_all
    then show ?thesis by (simp add: r accepted_def)
  qed
qed

lemma state_inv_post_skip_failed:
  assumes inv: "state_inv s"
  shows "state_inv (accepted s (post_skip_failed s jid))"
proof (cases "find_job s jid")
  case None
  then show ?thesis using inv by (simp add: post_skip_failed_def accepted_def)
next
  case (Some job)
  show ?thesis
  proof (cases "status job = Failed")
    case False
    then show ?thesis using inv Some by (simp add: post_skip_failed_def accepted_def)
  next
    case True
    from find_job_Some [OF Some] have j: "job \<in> set (jobs s)" "job_id job = jid" by simp_all
    have ji: "job_inv job" using inv j by (simp add: state_inv_def)
    have st: "settled s (job_id job)" using True by (intro unsuspended_settled [OF inv j(1)]) simp_all
    have res: "resume_index job \<le> int (length (steps job))" using ji by (simp add: job_inv_def)
    let ?n = "(case failedStepIndex job of None \<Rightarrow> 0 | Some k \<Rightarrow> k) + 1"
    let ?j1 = "job\<lparr>error := None, failedStep := None, failedStepIndex := None\<rparr>"
    show ?thesis
    proof (cases "?n \<ge> int (length (steps job))")
      case ge: True
      let ?j2 = "?j1\<lparr>status := Completed, progress := 100,
                    result := (if stepResults ?j1 \<noteq> [] then Some (snd (last (stepResults ?j1)))
                               else None)\<rparr>"
      have "job_inv ?j2" using res by (simp add: job_inv_def resume_index_def)
      then have "state_inv (set_job s ?j2)" using inv st by (intro state_inv_set_job) simp_all
      then show ?thesis using Some True ge by (simp add: post_skip_failed_def accepted_def Let_def)
    next
      case lt: False
      let ?j2 = "?j1\<lparr>resumeFromStep := Some ?n, status := Processing\<rparr>"
      have "clean ?j2" using lt by (simp add: clean_def resume_index_def)
      then have "state_inv (processJob s ?j2)" using inv st by (intro state_inv_processJob) simp_all
      then show ?thesis using Some True lt by (simp add: post_skip_failed_def accepted_def Let_def)
    qed
  qed
qed

subsection \<open>Reordering, creation, settings\<close>

lemma job_inv_priority: "job_inv (j\<lparr>priority := p\<rparr>) = job_inv j"
proof -
  have a: "asks_input (STEPS k) (j\<lparr>priority := p\<rparr>) = asks_input (STEPS k) j" for k
    by (rule asks_input_cong) simp_all
  show ?thesis
    by (simp add: job_inv_def waiting_ok_def resume_index_def a
        cong: option.case_cong)
qed

lemma state_inv_reorder_loop:
  "state_inv s \<Longrightarrow> state_inv (reorder_loop s index ids)"
proof (induction ids arbitrary: s index)
  case Nil
  then show ?case by simp
next
  case (Cons jid ids)
  let ?s1 = "case find_job s jid of
          None \<Rightarrow> s
        | Some job \<Rightarrow> if status job = Pending then set_job s (job\<lparr>priority := index\<rparr>) else s"
  have "state_inv ?s1"
  proof (cases "find_job s jid")
    case None
    then show ?thesis using Cons.prems by simp
  next
    case (Some job)
    from find_job_Some [OF Some] have j: "job \<in> set (jobs s)" by simp
    then have "job_inv job" using Cons.prems by (simp add: state_inv_def)
    then have "job_inv (job\<lparr>priority := index\<rparr>)"
      by (simp add: job_inv_priority)
    then have "state_inv (set_job s (job\<lparr>priority := index\<rparr>))"
      using Cons.prems j by (intro state_inv_set_job) auto
    then show ?thesis using Some Cons.prems by simp
  qed
  then show ?case using Cons.IH by simp
qed

lemma state_inv_put_reorder: "state_inv s \<Longrightarrow> state_inv (accepted s (put_reorder s jobIds))"
  by (cases jobIds) (simp_all add: put_reorder_def accepted_def state_inv_reorder_loop)

lemma ids_processJob: "map job_id (jobs (processJob s j)) = map job_id (jobs s)"
proof -
  from processJob_shape [of j s] obtain j' where "jobs (processJob s j) = jobs (set_job s j')"
    by blast
  then show ?thesis by simp
qed

lemma ids_foldl_processJob: "map job_id (jobs (foldl processJob s js)) = map job_id (jobs s)"
  by (induction js arbitrary: s) (simp_all add: ids_processJob)

lemma ids_processNext: "map job_id (jobs (processNext s)) = map job_id (jobs s)"
  by (simp add: processNext_def processNext_loop_spec ids_foldl_processJob)

lemma state_inv_append_job:
  assumes inv: "state_inv s" and fresh: "job_id j \<notin> job_id ` set (jobs s)"
    and ji: "job_inv j" and st: "status j \<noteq> Processing"
  shows "state_inv (s\<lparr>jobs := jobs s @ [j]\<rparr>)"
proof -
  have "\<forall>x \<in> set (jobs s). status x = Processing \<longrightarrow>
            length (filter (\<lambda>f. fr_job f = job_id x) (awaiting s)) \<le> 1"
    using inv by (simp add: state_inv_def frames_inv_def)
  moreover have "\<forall>f \<in> set (awaiting s). fr_outputPath f \<noteq> []
          \<and> (\<exists>x \<in> set (jobs s). job_id x = fr_job f
                \<and> (status x = Processing \<or> status x = Cancelled))"
    using inv by (simp add: state_inv_def frames_inv_def)
  ultimately show ?thesis
    using inv fresh ji st unfolding state_inv_def frames_inv_def by auto
qed

lemma create_one_eq:
  assumes "find_photo s pid = Some photo"
  shows "\<exists>s1 job. create_one s body validSteps (pid, jobUuid, maskUuid, now) =
            processNext (jobs_set s1 job)
         \<and> (s1 = s \<or> (\<exists>f. s1 = s\<lparr>files := f\<rparr>))
         \<and> job_id job = jobUuid \<and> status job = Pending \<and> resumeFromStep job = None
         \<and> failedStep job = None \<and> failedStepIndex job = None"
proof -
  define withMask where
    "withMask = (''inpaint'' \<in> set validSteps \<and> truthy (map_of (cb_masks body) pid))"
  define s1 where "s1 = (if withMask then s\<lparr>files := mask_file maskUuid # files s\<rparr> else s)"
  define job where "job = \<lparr> job_id = jobUuid,
                        photoId = pid,
                        photoName = originalName photo,
                        original = ''/uploads/'' @ filename photo,
                        steps = validSteps,
                        options = cb_options body,
                        maskPath = (if withMask then Some (mask_file maskUuid) else None),
                        cropRect = (if ''crop'' \<in> set validSteps
                                       \<and> truthy (map_of (cb_cropRects body) pid)
                                    then map_of (cb_cropRects body) pid else None),
                        status = Pending,
                        progress = 0,
                        createdAt = now,
                        result = None,
                        stepResults = [],
                        priority = now,
                        resumeFromStep = None,
                        currentInputPath = None,
                        currentStep = None,
                        waitingStep = None,
                        waitingImage = None,
                        error = None,
                        failedStep = None,
                        failedStepIndex = None \<rparr>"
  have "create_one s body validSteps (pid, jobUuid, maskUuid, now) = processNext (jobs_set s1 job)"
    using assms
    by (simp add: create_one_def Let_def enqueueJob_def withMask_def s1_def job_def)
  moreover have "s1 = s \<or> (\<exists>f. s1 = s\<lparr>files := f\<rparr>)"
    unfolding s1_def by (cases withMask) auto
  moreover have "job_id job = jobUuid \<and> status job = Pending \<and> resumeFromStep job = None
         \<and> failedStep job = None \<and> failedStepIndex job = None"
    by (simp add: job_def)
  ultimately show ?thesis by blast
qed

lemma state_inv_create_one:
  assumes inv: "state_inv s" and fresh: "\<not> list_ex (\<lambda>j. job_id j = jobUuid) (jobs s)"
  shows "state_inv (create_one s body validSteps (pid, jobUuid, maskUuid, now))"
proof (cases "find_photo s pid")
  case None
  then show ?thesis using inv by (simp add: create_one_def)
next
  case (Some photo)
  from create_one_eq [OF Some, of body validSteps jobUuid maskUuid now] obtain s1 job where
    eq: "create_one s body validSteps (pid, jobUuid, maskUuid, now) = processNext (jobs_set s1 job)"
    and s1: "s1 = s \<or> (\<exists>f. s1 = s\<lparr>files := f\<rparr>)"
    and job: "job_id job = jobUuid" "status job = Pending" "resumeFromStep job = None"
      "failedStep job = None" "failedStepIndex job = None"
    by blast
  have js: "jobs s1 = jobs s" and inv1: "state_inv s1" using s1 inv by auto
  have nf: "job_id job \<notin> job_id ` set (jobs s1)"
    using fresh job(1) js by (auto simp: list_ex_iff)
  have "job_inv job" using job by (simp add: job_inv_def resume_index_def)
  then have "state_inv (s1\<lparr>jobs := jobs s1 @ [job]\<rparr>)"
    using inv1 nf job(2) by (intro state_inv_append_job) simp_all
  moreover have "jobs_set s1 job = s1\<lparr>jobs := jobs s1 @ [job]\<rparr>"
    using fresh job(1) js by (simp add: jobs_set_def)
  ultimately show ?thesis
    unfolding eq by (simp add: state_inv_processNext)
qed

lemma ids_create_one:
  "job_id ` set (jobs (create_one s body validSteps (pid, jobUuid, maskUuid, now)))
     \<subseteq> insert jobUuid (job_id ` set (jobs s))"
proof (cases "find_photo s pid")
  case None
  then show ?thesis by (auto simp: create_one_def)
next
  case (Some photo)
  from create_one_eq [OF Some, of body validSteps jobUuid maskUuid now] obtain s1 job where
    eq: "create_one s body validSteps (pid, jobUuid, maskUuid, now) = processNext (jobs_set s1 job)"
    and s1: "s1 = s \<or> (\<exists>f. s1 = s\<lparr>files := f\<rparr>)" and job: "job_id job = jobUuid"
    by blast
  have js: "jobs s1 = jobs s" using s1 by auto
  have "job_id ` set (jobs (jobs_set s1 job)) \<subseteq> insert jobUuid (job_id ` set (jobs s))"
    using js job ids_set_job [of s1 job]
    by (auto simp: jobs_set_def jobs_set_job split: if_splits)
  moreover have "job_id ` set (jobs (processNext (jobs_set s1 job)))
     = job_id ` set (jobs (jobs_set s1 job))"
    using ids_processNext [of "jobs_set s1 job"] by (metis set_map)
  ultimately show ?thesis unfolding eq by simp
qed

lemma state_inv_create_all:
  assumes "state_inv s" "distinct (map draw_uuid ds)"
    "list_all (\<lambda>d. draw_uuid d \<noteq> [] \<and> \<not> list_ex (\<lambda>j. job_id j = draw_uuid d) (jobs s)) ds"
  shows "state_inv (foldl (\<lambda>s d. create_one s body validSteps d) s ds)"
  using assms
proof (induction ds arbitrary: s)
  case Nil
  then show ?case by simp
next
  case (Cons d ds)
  obtain pid jobUuid maskUuid now where d: "d = (pid, jobUuid, maskUuid, now)"
    by (cases d) auto
  then have du: "draw_uuid d = jobUuid" by (simp add: draw_uuid_def)
  let ?s1 = "create_one s body validSteps d"
  have fresh: "\<not> list_ex (\<lambda>j. job_id j = jobUuid) (jobs s)" using Cons.prems(3) du by simp
  have 1: "state_inv ?s1" unfolding d by (rule state_inv_create_one [OF Cons.prems(1) fresh])
  have 2: "distinct (map draw_uuid ds)" using Cons.prems(2) by simp
  have notin: "jobUuid \<notin> draw_uuid ` set ds" using Cons.prems(2) du by simp
  have 3: "list_all (\<lambda>d. draw_uuid d \<noteq> [] \<and> \<not> list_ex (\<lambda>j. job_id j = draw_uuid d) (jobs ?s1)) ds"
    unfolding list_all_iff
  proof
    fix x assume x: "x \<in> set ds"
    have "draw_uuid x \<noteq> jobUuid" using notin x by (metis imageI)
    moreover have nx: "draw_uuid x \<noteq> [] \<and> \<not> list_ex (\<lambda>j. job_id j = draw_uuid x) (jobs s)"
      using Cons.prems(3) x by (simp add: list_all_iff)
    then have "draw_uuid x \<notin> job_id ` set (jobs s)"
      unfolding list_ex_iff image_iff by metis
    moreover have "draw_uuid x \<noteq> []" using nx by simp
    ultimately have "draw_uuid x \<notin> job_id ` set (jobs ?s1)"
      using ids_create_one [of s body validSteps pid jobUuid maskUuid now] d by auto
    then have "\<not> list_ex (\<lambda>j. job_id j = draw_uuid x) (jobs ?s1)"
      unfolding list_ex_iff image_iff by metis
    then show "draw_uuid x \<noteq> [] \<and> \<not> list_ex (\<lambda>j. job_id j = draw_uuid x) (jobs ?s1)"
      using nx by simp
  qed
  show ?case using Cons.IH [OF 1 2 3] by simp
qed

lemma state_inv_post_jobs:
  assumes "state_inv s" "event_ok s (PostJobs aiReady body photoIds)"
  shows "state_inv (accepted s (post_jobs s aiReady body photoIds))"
  using assms by (simp add: post_jobs_def accepted_def Let_def state_inv_create_all)

lemma state_inv_put_settings: "state_inv s \<Longrightarrow> state_inv (fst (put_settings s val))"
proof -
  assume inv: "state_inv s"
  have "state_inv (setMaxConcurrent s v)" for v
    using inv state_inv_cong [of "setMaxConcurrent s v" s] by (simp add: setMaxConcurrent_def)
  then show ?thesis
    using inv by (cases val) (simp_all add: put_settings_def Let_def state_inv_processNext)
qed

lemma state_inv_photos:
  "state_inv (post_photo s p) = state_inv s"
  "state_inv (delete_photo s pid) = state_inv s"
  "state_inv (clear_photos s) = state_inv s"
  "state_inv (get_jobs s now) = state_inv s"
  by (simp_all add: state_inv_def frames_inv_def post_photo_def delete_photo_def
      clear_photos_def get_jobs_def touchHeartbeat_def)

subsection \<open>The exit of a worker\<close>

lemma index_from_less: "0 \<le> n \<Longrightarrow> index_from n xs x < n + int (length xs)"
proof (induction xs arbitrary: n)
  case Nil
  then show ?case by simp
next
  case (Cons y ys)
  have "index_from (n + 1) ys x < n + 1 + int (length ys)"
    using Cons.prems by (intro Cons.IH) simp
  then show ?case using Cons.prems by simp
qed

lemma indexOf_less: "indexOf xs v < int (length xs)"
  using index_from_less [of 0 xs] by (cases v) (simp_all add: indexOf_def)

lemma foldl_processJob_other:
  assumes "x \<in> set (jobs s)" "\<forall>j \<in> set js. job_id j \<noteq> job_id x"
  shows "x \<in> set (jobs (foldl processJob s js))
       \<and> (settled s (job_id x) \<longrightarrow> settled (foldl processJob s js) (job_id x))"
  using assms
proof (induction js arbitrary: s)
  case Nil
  then show ?case by simp
next
  case (Cons j js)
  have ne: "job_id x \<noteq> job_id j" using Cons.prems(2) by auto
  from processJob_shape [of j s] obtain j' where
    j': "job_id j' = job_id j" "jobs (processJob s j) = jobs (set_job s j')" by blast
  have 1: "x \<in> set (jobs (processJob s j))"
    unfolding j'(2) using Cons.prems(1) ne j'(1) by (intro set_job_other) simp_all
  have 2: "\<forall>y \<in> set js. job_id y \<noteq> job_id x" using Cons.prems(2) by simp
  have 3: "settled s (job_id x) \<longrightarrow> settled (processJob s j) (job_id x)"
    using ne by (simp add: settled_processJob_other)
  show ?case using Cons.IH [OF 1 2] 3 by simp
qed

lemma processNext_other:
  assumes inv: "state_inv s" and x: "x \<in> set (jobs s)" "status x \<noteq> Pending"
  shows "x \<in> set (jobs (processNext s))
       \<and> (settled s (job_id x) \<longrightarrow> settled (processNext s) (job_id x))"
proof -
  let ?js = "spec_dispatch (running_count s) (maxConcurrent s) 0 (candidates s)"
  have d: "distinct (map job_id (jobs s))" using inv by (simp add: state_inv_def)
  have "\<forall>j \<in> set ?js. job_id j \<noteq> job_id x"
  proof
    fix j assume "j \<in> set ?js"
    then have j: "j \<in> set (jobs s)" "status j = Pending"
      using spec_dispatch_subset candidates_subset by blast+
    show "job_id j \<noteq> job_id x"
    proof
      assume "job_id j = job_id x"
      then have "j = x" using same_id_same_job [OF d x(1) j(1)] by simp
      then show False using j(2) x(2) by simp
    qed
  qed
  then show ?thesis
    using foldl_processJob_other [OF x(1), of ?js]
    by (simp add: processNext_def processNext_loop_spec)
qed

lemma state_inv_drop_frames:
  assumes "state_inv s" "jobs s' = jobs s" "awaiting s' = filter q (awaiting s)"
  shows "state_inv s'"
proof -
  have "length (filter p (filter q xs)) \<le> length (filter p xs)" for p and xs :: "frame list"
    by (induction xs) auto
  then have "length (filter p (filter q (awaiting s))) \<le> 1"
    if "length (filter p (awaiting s)) \<le> 1" for p
    using that order_trans by blast
  then show ?thesis
    using assms unfolding state_inv_def frames_inv_def by auto
qed

lemma short_list_unique: "length xs \<le> 1 \<Longrightarrow> a \<in> set xs \<Longrightarrow> b \<in> set xs \<Longrightarrow> a = b"
  by (cases xs; cases "tl xs") auto

lemma single_frame_removed:
  assumes le: "length (filter (\<lambda>f. fr_job f = jid) frs) \<le> 1"
    and fr: "fr \<in> set frs" "fr_job fr = jid" "fr_proc fr = proc"
  shows "\<forall>f \<in> set (filter (\<lambda>f. fr_proc f \<noteq> proc) frs). fr_job f \<noteq> jid"
proof
  fix f assume f: "f \<in> set (filter (\<lambda>f. fr_proc f \<noteq> proc) frs)"
  show "fr_job f \<noteq> jid"
  proof
    assume eq: "fr_job f = jid"
    have "f \<in> set (filter (\<lambda>f. fr_job f = jid) frs)" "fr \<in> set (filter (\<lambda>f. fr_job f = jid) frs)"
      using f eq fr by auto
    moreover have "f \<noteq> fr" using f fr(3) by auto
    ultimately show False using short_list_unique [OF le] by blast
  qed
qed


lemma job_inv_currentStep: "job_inv (j\<lparr>currentStep := c\<rparr>) = job_inv j"
proof -
  have a: "asks_input (STEPS k) (j\<lparr>currentStep := c\<rparr>) = asks_input (STEPS k) j" for k
    by (rule asks_input_cong) simp_all
  show ?thesis
    by (simp add: job_inv_def waiting_ok_def resume_index_def a cong: option.case_cong)
qed

lemma onComplete_fields:
  assumes "d = (case STEPS k of
                  None \<Rightarrow> (job, None)
                | Some stepDef \<Rightarrow>
                    (case onComplete stepDef of None \<Rightarrow> (job, None) | Some f \<Rightarrow> f job))"
  shows "job_id (fst d) = job_id job \<and> steps (fst d) = steps job \<and> status (fst d) = status job
       \<and> failedStep (fst d) = failedStep job \<and> failedStepIndex (fst d) = failedStepIndex job
       \<and> resumeFromStep (fst d) = resumeFromStep job"
proof (cases "STEPS k")
  case None
  then show ?thesis using assms by simp
next
  case (Some stepDef)
  from STEPS_cases [OF Some] show ?thesis
    using assms Some by (elim disjE conjE) (simp_all add: step_defs)
qed

lemma state_inv_worker_exit:
  assumes inv: "state_inv s"
  shows "state_inv (worker_exit s proc err)"
proof (cases "find (\<lambda>f. fr_proc f = proc) (awaiting s)")
  case None
  then show ?thesis using inv by (simp add: worker_exit_def)
next
  case (Some fr)
  then have fr: "fr \<in> set (awaiting s)" "fr_proc fr = proc"
    by (auto simp: find_Some_iff)
  define s1 where "s1 = s\<lparr>runningProcs := AList.delete (fr_job fr) (runningProcs s),
                      awaiting := filter (\<lambda>f. fr_proc f \<noteq> proc) (awaiting s)\<rparr>"
  have js1: "jobs s1 = jobs s" and aw1: "awaiting s1 = filter (\<lambda>f. fr_proc f \<noteq> proc) (awaiting s)"
    by (simp_all add: s1_def)
  have inv1: "state_inv s1" by (rule state_inv_drop_frames [OF inv js1 aw1])
  have d: "distinct (map job_id (jobs s))" using inv by (simp add: state_inv_def)
  from inv fr(1) obtain job where job: "job \<in> set (jobs s)" "job_id job = fr_job fr"
    "status job = Processing \<or> status job = Cancelled" and out: "fr_outputPath fr \<noteq> []"
    by (auto simp: state_inv_def frames_inv_def)
  have fj: "find_job s1 (fr_job fr) = Some job"
    using find_job_eq [OF d job(1)] job(2) js1 by (simp add: find_job_def)
  have ji: "job_inv job" using inv job(1) by (simp add: state_inv_def)
  have we: "worker_exit s proc err =
      (case err of Some message \<Rightarrow> processJob_catch s1 job message
       | None \<Rightarrow> processJob_resume s1 job fr)"
    using Some fj by (simp add: worker_exit_def Let_def s1_def [symmetric])
  have job1: "job \<in> set (jobs s1)" using job(1) js1 by simp
  have st1: "settled s1 (job_id job)" if "status job = Processing"
  proof -
    have "length (filter (\<lambda>f. fr_job f = job_id job) (awaiting s)) \<le> 1"
      using inv job(1) that by (simp add: state_inv_def frames_inv_def)
    from single_frame_removed [OF this fr(1) job(2) [symmetric] fr(2)]
    show ?thesis using job1 by (simp add: settled_def aw1)
  qed
  show ?thesis
  proof (cases err)
    case (Some message)
    show ?thesis
    proof (cases "status job = Cancelled")
      case True
      have "state_inv (set_job s1 (job\<lparr>currentStep := None\<rparr>))"
        using inv1 ji job1 by (intro state_inv_set_job) (auto simp: job_inv_currentStep)
      then show ?thesis using we Some True by (simp add: processJob_catch_def)
    next
      case False
      then have pr: "status job = Processing" using job(3) by simp
      let ?j = "job\<lparr>status := Failed, error := Some message, failedStep := currentStep job,
                    failedStepIndex := Some (indexOf (steps job) (currentStep job)),
                    currentStep := None\<rparr>"
      have "job_inv ?j"
        using ji indexOf_less [of "steps job" "currentStep job"]
        by (simp add: job_inv_def resume_index_def)
      then have "state_inv (set_job s1 ?j)"
        using inv1 st1 [OF pr] by (intro state_inv_set_job) simp_all
      then show ?thesis using we Some False by (simp add: processJob_catch_def)
    qed
  next
    case None
    show ?thesis
    proof (cases "status job = Cancelled")
      case True
      then show ?thesis using we None inv1 by (simp add: processJob_resume_def)
    next
      case False
      then have pr: "status job = Processing" using job(3) by simp
      define dn where "dn = (case STEPS (fr_step fr) of
                       None \<Rightarrow> (job, None)
                     | Some stepDef \<Rightarrow>
                         (case onComplete stepDef of None \<Rightarrow> (job, None) | Some f \<Rightarrow> f job))"
      define job2 where "job2 = (fst dn)\<lparr>stepResults := stepResults (fst dn) @
                                  [(fr_step fr, ''/results/'' @ fr_outputFilename fr)],
                                currentInputPath := Some (fr_outputPath fr)\<rparr>"
      define s2 where "s2 = processNext (set_job (unlink s1 (snd dn)) job2)"
      from onComplete_fields [OF dn_def] have f2: "job_id job2 = job_id job"
        "steps job2 = steps job" "status job2 = Processing" "failedStep job2 = failedStep job"
        "failedStepIndex job2 = failedStepIndex job" "resumeFromStep job2 = resumeFromStep job"
        using pr by (simp_all add: job2_def)
      have cl2: "clean job2"
        using ji pr f2 by (simp add: clean_def job_inv_def resume_index_def)
      have ji2: "job_inv job2"
        using ji pr f2 by (simp add: job_inv_def resume_index_def)
      let ?s' = "set_job (unlink s1 (snd dn)) job2"
      have inv': "state_inv ?s'"
        using inv1 ji2 st1 [OF pr] f2(1) by (intro state_inv_set_job) simp_all
      have st': "settled ?s' (job_id job2)" using st1 [OF pr] f2(1) by simp
      have mem': "job2 \<in> set (jobs ?s')"
        using st1 [OF pr] f2(1) by (intro set_job_mem) (simp add: settled_def unlink_def split: option.splits)
      have inv2: "state_inv s2" unfolding s2_def by (rule state_inv_processNext [OF inv'])
      have oth: "job2 \<in> set (jobs s2) \<and> settled s2 (job_id job2)"
        unfolding s2_def using processNext_other [OF inv' mem'] f2(3) st' by simp
      have d2: "distinct (map job_id (jobs s2))" using inv2 by (simp add: state_inv_def)
      have fj2: "find_job s2 (job_id job2) = Some job2"
        using find_job_eq [OF d2] oth by simp
      have "state_inv (processJob_loop s2 job2 (fr_origName fr) (fr_jobShort fr) (fr_i fr + 1)
                  (fr_outputPath fr))"
        using inv2 oth cl2 f2(3) out by (intro state_inv_loop) simp_all
      moreover have "processJob_resume s1 job fr =
          (case find_job s2 (job_id job2) of
             None \<Rightarrow> s2
           | Some job3 \<Rightarrow>
               processJob_loop s2 job3 (fr_origName fr) (fr_jobShort fr) (fr_i fr + 1)
                 (fr_outputPath fr))"
        unfolding processJob_resume_def s2_def job2_def dn_def Let_def
        by (simp only: False if_False)
      then have "processJob_resume s1 job fr =
          processJob_loop s2 job2 (fr_origName fr) (fr_jobShort fr) (fr_i fr + 1) (fr_outputPath fr)"
        using fj2 by simp
      ultimately show ?thesis using we None by simp
    qed
  qed
qed

lemma state_inv_initial: "state_inv (initial max_jobs timeout_seconds now)"
  by (simp add: state_inv_def frames_inv_def initial_def Let_def)

lemma state_inv_apply_event:
  assumes "state_inv s" "event_ok s ev"
  shows "state_inv (apply_event s ev)"
proof (cases ev)
  case (PostJobs aiReady body photoIds)
  then show ?thesis using assms state_inv_post_jobs by simp
next
  case (WorkerExit proc err)
  then show ?thesis using assms state_inv_worker_exit by simp
qed (use assms in \<open>simp_all add: state_inv_photos state_inv_post_input state_inv_post_skip
      state_inv_post_back state_inv_post_retry state_inv_post_skip_failed state_inv_post_cancel
      state_inv_post_cancel_all state_inv_put_reorder state_inv_put_settings
      state_inv_checkHeartbeat state_inv_processNext\<close>)

lemma reachable_state_inv: "reachable s \<Longrightarrow> state_inv s"
  by (induction rule: reachable.induct) (simp_all add: state_inv_initial state_inv_apply_event)

lemma reachable_scenarios:
  "reachable scenario_resume" "reachable scenario_progress" "reachable scenario_photo_gone"
  "reachable scenario_waiting"
proof -
  have "events_ok server1 events_resume" by code_simp
  then show "reachable scenario_resume"
    unfolding scenario_resume_def by (rule reachable_run [OF reachable_server1])
  have "events_ok server1 events_progress" by code_simp
  then show "reachable scenario_progress"
    unfolding scenario_progress_def by (rule reachable_run [OF reachable_server1])
  have "events_ok server1 events_photo_gone" by code_simp
  then show "reachable scenario_photo_gone"
    unfolding scenario_photo_gone_def by (rule reachable_run [OF reachable_server1])
  have "events_ok server1 events_waiting" by code_simp
  then show "reachable scenario_waiting"
    unfolding scenario_waiting_def by (rule reachable_run [OF reachable_server1])
qed

lemma reachable_scenario_dispatch: "reachable scenario_dispatch"
proof -
  have e: "scenario_dispatch = run server1 events_dispatch"
    by (simp add: scenario_dispatch_def events_dispatch_def)
  have ok: "events_ok server1 events_dispatch" by code_simp
  show ?thesis unfolding e by (rule reachable_run [OF reachable_server1 ok])
qed

section \<open>Compute slots\<close>











section \<open>The resume index\<close>

text \<open>
  \<^bold>\<open>C6\<close>, as stated, fails. A job with two automatic steps is suspended at its second
  worker: it has one step result, and \<^verbatim>\<open>resumeFromStep\<close> was never written (it counts
  as 0).
\<close>

theorem stepResults_exceed_resumeFromStep:
  "reachable scenario_progress
   \<and> map (\<lambda>f. (fr_job f, fr_i f)) (awaiting scenario_progress) = [(''job-a'', 1)]
   \<and> map (\<lambda>j. (job_id j, status j, length (stepResults j), resumeFromStep j, length (steps j)))
         (jobs scenario_progress) = [(''job-a'', Processing, 1, None, 2)]
   \<and> (\<exists>j \<in> set (jobs scenario_progress). \<not> int (length (stepResults j)) \<le> resume_index j)"
proof -
  have "map (\<lambda>f. (fr_job f, fr_i f)) (awaiting scenario_progress) = [(''job-a'', 1)]"
    by code_simp
  moreover have "map (\<lambda>j. (job_id j, status j, length (stepResults j), resumeFromStep j,
       length (steps j))) (jobs scenario_progress) = [(''job-a'', Processing, 1, None, 2)]"
    by code_simp
  moreover have "\<exists>j \<in> set (jobs scenario_progress).
       \<not> int (length (stepResults j)) \<le> resume_index j"
    by code_simp
  ultimately show ?thesis using reachable_scenarios(2) by blast
qed

text \<open>
  \<^bold>\<open>C6\<close>, amended. In every reachable state every job satisfies
  \<open>resumeFromStep \<le> steps.length\<close> (an unset \<^verbatim>\<open>resumeFromStep\<close> counting as 0), and a
  job that waits for input has \<open>0 \<le> resumeFromStep < steps.length\<close>.
\<close>

theorem resumeFromStep_within_steps:
  assumes "reachable s" "j \<in> set (jobs s)"
  shows "resume_index j \<le> int (length (steps j))
       \<and> (status j = WaitingInput \<longrightarrow> 0 \<le> resume_index j \<and> resume_index j < int (length (steps j)))"
proof -
  have ji: "job_inv j" using reachable_state_inv [OF assms(1)] assms(2) by (simp add: state_inv_def)
  then show ?thesis using waiting_resume [OF ji] by (simp add: job_inv_def)
qed

theorem resumeFromStep_within_steps_witness:
  "reachable scenario_rewind
   \<and> hd (jobs scenario_rewind) \<in> set (jobs scenario_rewind)
   \<and> status (hd (jobs scenario_rewind)) = WaitingInput
   \<and> resume_index (hd (jobs scenario_rewind)) = 1
   \<and> length (steps (hd (jobs scenario_rewind))) = 2
   \<and> resume_index (hd (jobs scenario_rewind)) \<le> int (length (steps (hd (jobs scenario_rewind))))
   \<and> resume_index (hd (jobs scenario_rewind)) < int (length (steps (hd (jobs scenario_rewind))))"
proof -
  have "events_ok server1 events_rewind" by code_simp
  then have r: "reachable scenario_rewind"
    unfolding scenario_rewind_def by (rule reachable_run [OF reachable_server1])
  have m: "hd (jobs scenario_rewind) \<in> set (jobs scenario_rewind)" by code_simp
  have w: "status (hd (jobs scenario_rewind)) = WaitingInput" by code_simp
  have i: "resume_index (hd (jobs scenario_rewind)) = 1" by code_simp
  have l: "length (steps (hd (jobs scenario_rewind))) = 2" by code_simp
  from resumeFromStep_within_steps [OF r m] w
  have "resume_index (hd (jobs scenario_rewind)) \<le> int (length (steps (hd (jobs scenario_rewind))))
    \<and> resume_index (hd (jobs scenario_rewind)) < int (length (steps (hd (jobs scenario_rewind))))"
    by blast
  with r m w i l show ?thesis by blast
qed

section \<open>The fields of a failure\<close>

text \<open>
  \<^bold>\<open>C7\<close>, as stated, fails. A job waits for its crop rectangle, its photo is deleted,
  and the rectangle is submitted: \<^verbatim>\<open>processJob\<close> finds no photo and sets the job to
  failed, with neither \<^verbatim>\<open>failedStep\<close> nor \<^verbatim>\<open>failedStepIndex\<close> written.
\<close>

theorem failed_without_failedStep:
  "reachable scenario_photo_gone
   \<and> map (\<lambda>j. (job_id j, status j, failedStep j, failedStepIndex j)) (jobs scenario_photo_gone) =
       [(''job-a'', Failed, None, None)]
   \<and> (\<exists>j \<in> set (jobs scenario_photo_gone).
         \<not> ((failedStep j \<noteq> None \<and> failedStepIndex j \<noteq> None) \<longleftrightarrow> status j = Failed))"
proof -
  have "map (\<lambda>j. (job_id j, status j, failedStep j, failedStepIndex j))
       (jobs scenario_photo_gone) = [(''job-a'', Failed, None, None)]"
    by code_simp
  moreover have "\<exists>j \<in> set (jobs scenario_photo_gone).
         \<not> ((failedStep j \<noteq> None \<and> failedStepIndex j \<noteq> None) \<longleftrightarrow> status j = Failed)"
    by code_simp
  ultimately show ?thesis using reachable_scenarios(3) by blast
qed

text \<open>
  \<^bold>\<open>C7\<close>, amended. In every reachable state, a job that has \<^verbatim>\<open>failedStep\<close> or
  \<^verbatim>\<open>failedStepIndex\<close> populated has the status failed.
\<close>

theorem failed_fields_only_when_failed:
  assumes "reachable s" "j \<in> set (jobs s)" "failedStep j \<noteq> None \<or> failedStepIndex j \<noteq> None"
  shows "status j = Failed"
proof -
  have "job_inv j" using reachable_state_inv [OF assms(1)] assms(2) by (simp add: state_inv_def)
  then show ?thesis using assms(3) by (auto simp: job_inv_def)
qed

theorem failed_fields_only_when_failed_witness:
  "reachable scenario_dispatch
   \<and> hd (jobs scenario_dispatch) \<in> set (jobs scenario_dispatch)
   \<and> failedStep (hd (jobs scenario_dispatch)) = Some ''face_restore''
   \<and> failedStepIndex (hd (jobs scenario_dispatch)) = Some 0
   \<and> status (hd (jobs scenario_dispatch)) = Failed"
proof -
  have m: "hd (jobs scenario_dispatch) \<in> set (jobs scenario_dispatch)" by code_simp
  have f: "failedStep (hd (jobs scenario_dispatch)) = Some ''face_restore''" by code_simp
  have i: "failedStepIndex (hd (jobs scenario_dispatch)) = Some 0" by code_simp
  have "status (hd (jobs scenario_dispatch)) = Failed"
    using failed_fields_only_when_failed [OF reachable_scenario_dispatch m] f by simp
  with m f i reachable_scenario_dispatch show ?thesis by blast
qed

section \<open>Submitting no input\<close>

lemma set_job_same:
  assumes "distinct (map job_id (jobs s))" "j \<in> set (jobs s)"
  shows "set_job s j = s"
proof -
  have "map (\<lambda>x. if job_id x = job_id j then j else x) (jobs s) = jobs s"
    using same_id_same_job [OF assms] by (intro map_idI) auto
  then show ?thesis by (simp add: set_job_def)
qed

text \<open>
  \<^bold>\<open>C10.\<close> In a reachable state, for a job that waits for input on a crop step (on an
  inpaint step) and whose photo exists, \<^verbatim>\<open>POST /:id/input\<close> with no crop rectangle (no
  mask) is accepted: the handler clears \<^verbatim>\<open>waitingStep\<close> and \<^verbatim>\<open>waitingImage\<close> and calls
  \<^verbatim>\<open>processJob\<close>, which sets the job to processing and pauses it again at the same
  step, leaving the whole state, and so every field of the job, as it was.
\<close>

theorem post_input_without_input:
  assumes r: "reachable s" and f: "find_job s jid = Some job" and w: "status job = WaitingInput"
    and p: "find_photo s (photoId job) \<noteq> None"
    and n: "(waitingStep job = Some ''crop'' \<and> \<not> truthy cropRect')
          \<or> (waitingStep job = Some ''inpaint'' \<and> \<not> truthy mask')"
  shows "post_input s jid mask' cropRect' maskUuid =
           Inr (processJob s (job\<lparr>waitingStep := None, waitingImage := None\<rparr>))
       \<and> processJob s (job\<lparr>waitingStep := None, waitingImage := None\<rparr>) = s"
proof -
  have inv: "state_inv s" by (rule reachable_state_inv [OF r])
  then have d: "distinct (map job_id (jobs s))" by (simp add: state_inv_def)
  from find_job_Some [OF f] have j: "job \<in> set (jobs s)" by simp
  then have "job_inv job" using inv by (simp add: state_inv_def)
  then have wo: "waiting_ok job" using w by (simp add: job_inv_def)
  then obtain k c where k: "resumeFromStep job = Some k" "0 \<le> k" "k < int (length (steps job))"
    "waitingStep job = Some (steps job ! nat k)" "asks_input (STEPS (steps job ! nat k)) job"
    "progress job = round_percent k (int (length (steps job)))"
    "currentInputPath job = Some c" "c \<noteq> []" "waitingImage job = Some (getUrlForPath c)"
    by (auto simp: waiting_ok_def split: option.splits)
  let ?j3 = "job\<lparr>waitingStep := None, waitingImage := None\<rparr>"
  let ?job = "?j3\<lparr>status := Processing\<rparr>"
  have ne: "''crop'' \<noteq> ''inpaint''" by simp
  have 1: "post_input s jid mask' cropRect' maskUuid = Inr (processJob s ?j3)"
    using f w n ne by (auto simp: post_input_def Let_def)
  obtain d where sd: "STEPS (steps job ! nat k) = Some d"
    using k(5) by (cases "STEPS (steps job ! nat k)") (simp_all add: asks_input_def)
  have "asks_input (STEPS (steps job ! nat k)) ?job = asks_input (STEPS (steps job ! nat k)) job"
    by (rule asks_input_cong) simp_all
  then have a: "asks_input (Some d) ?job" using k(5) sd by simp
  have nth: "js_nth (steps job) k = Some (steps job ! nat k)" using k(2,3) by (simp add: js_nth_def)
  obtain photo where ph: "find_photo s (photoId job) = Some photo" using p by auto
  have "processJob s ?j3 = processJob_loop s ?job (sanitizeFilename (parse_name (originalName photo)))
          (take 6 (job_id job)) k c"
    using ph k(1,7,8) by (simp add: processJob_def Let_def resume_index_def)
  also have "\<dots> = set_job s (paused ?job k (steps job ! nat k) c)"
    using k(3) nth sd a by (subst processJob_loop.simps) (simp add: paused_def)
  also have "paused ?job k (steps job ! nat k) c = job"
    using k w by (intro job.equality) (simp_all add: paused_def)
  also have "set_job s job = s" by (rule set_job_same [OF d j])
  finally have 2: "processJob s ?j3 = s" .
  from 1 2 show ?thesis by simp
qed

theorem post_input_without_input_witness:
  "reachable scenario_waiting
   \<and> find_job scenario_waiting ''job-a'' = Some (hd (jobs scenario_waiting))
   \<and> status (hd (jobs scenario_waiting)) = WaitingInput
   \<and> waitingStep (hd (jobs scenario_waiting)) = Some ''crop''
   \<and> find_photo scenario_waiting (photoId (hd (jobs scenario_waiting))) = Some photo1
   \<and> post_input scenario_waiting ''job-a'' None None ''m'' = Inr scenario_waiting"
proof -
  have f: "find_job scenario_waiting ''job-a'' = Some (hd (jobs scenario_waiting))" by code_simp
  have w: "status (hd (jobs scenario_waiting)) = WaitingInput" by code_simp
  have c: "waitingStep (hd (jobs scenario_waiting)) = Some ''crop''" by code_simp
  have p: "find_photo scenario_waiting (photoId (hd (jobs scenario_waiting))) = Some photo1"
    by code_simp
  have p': "find_photo scenario_waiting (photoId (hd (jobs scenario_waiting))) \<noteq> None"
    using p by simp
  have n: "(waitingStep (hd (jobs scenario_waiting)) = Some ''crop'' \<and> \<not> truthy None)
          \<or> (waitingStep (hd (jobs scenario_waiting)) = Some ''inpaint'' \<and> \<not> truthy None)"
    using c by simp
  from post_input_without_input [OF reachable_scenarios(4) f w p' n, of "''m''"]
  have "post_input scenario_waiting ''job-a'' None None ''m'' = Inr scenario_waiting"
    by simp
  with f w c p reachable_scenarios(4) show ?thesis by blast
qed


end
